theory Spec2Isabelle
  imports Complex_Main "HOL-Library.AList" "HOL-Library.Char_ord" "HOL-Library.List_Lexorder"
    "HOL-Library.Product_Lexorder" "HOL-Library.Multiset"
begin

section \<open>Approximate string matching (the library routine the reconciler calls)\<close>

text \<open>
  \<^verbatim>\<open>dashboard.py\<close> reconciles state names with
  \<^verbatim>\<open>difflib.get_close_matches(state, geojson_states, n=1, cutoff=0.6)\<close>.
  The definitions of this section follow CPython's \<^verbatim>\<open>difflib.py\<close> and
  \<^verbatim>\<open>heapq.nlargest\<close> for that call: a \<^verbatim>\<open>SequenceMatcher\<close> with
  \<^verbatim>\<open>isjunk=None\<close> and \<^verbatim>\<open>autojunk=True\<close>, the word as sequence
  \<^verbatim>\<open>b\<close> (\<^verbatim>\<open>set_seq2\<close>) and each candidate as sequence \<^verbatim>\<open>a\<close>
  (\<^verbatim>\<open>set_seq1\<close>).

  A Python string is a sequence of code points; the sequences here are lists over any
  linearly ordered element type, and \<^typ>\<open>string\<close> is used for names (for ASCII names
  a \<^typ>\<open>char\<close> is a code point, and the order on \<^typ>\<open>string\<close> is Python's order on
  \<^verbatim>\<open>str\<close>). Scores are Python floats \<^verbatim>\<open>2.0 * matches / length\<close>; they are
  modelled by the rational number with that value. Rounding to a double is monotone, and two
  different quotients of this shape with total length below \<open>2 ^ 25\<close> are further apart than
  one rounding step, so the comparisons of scores with each other and with \<^verbatim>\<open>0.6\<close>
  come out the same on the rationals.
\<close>

definition calculate_ratio :: "nat \<Rightarrow> nat \<Rightarrow> rat" where
  "calculate_ratio matches len =
     (if len \<noteq> 0 then 2 * of_nat matches / of_nat len else 1)"

text \<open>
  \<^verbatim>\<open>__chain_b\<close>: \<^verbatim>\<open>b2j[elt]\<close> lists, in increasing order, the positions of
  \<^verbatim>\<open>elt\<close> in \<^verbatim>\<open>b\<close>. With \<^verbatim>\<open>isjunk=None\<close> the junk set is empty. When
  \<^verbatim>\<open>b\<close> has at least 200 elements, the elements that occur more than
  \<^verbatim>\<open>len(b) // 100 + 1\<close> times are "popular" and deleted from \<^verbatim>\<open>b2j\<close>;
  \<^verbatim>\<open>b2j.get(elt, [])\<close> is then the empty list for them.
\<close>

definition bpopular :: "'a list \<Rightarrow> 'a set" where
  "bpopular b =
     (if length b \<ge> 200 then {elt \<in> set b. count_list b elt > length b div 100 + 1} else {})"

definition b2j :: "'a list \<Rightarrow> 'a \<Rightarrow> nat list" where
  "b2j b elt = (if elt \<in> bpopular b then [] else filter (\<lambda>j. b ! j = elt) [0..<length b])"

text \<open>
  The inner loop of \<^verbatim>\<open>find_longest_match\<close> over \<^verbatim>\<open>b2j.get(a[i], nothing)\<close>:
  \<^verbatim>\<open>continue\<close> below \<^verbatim>\<open>blo\<close>, \<^verbatim>\<open>break\<close> at \<^verbatim>\<open>bhi\<close>.
  \<^verbatim>\<open>j2len.get(j-1, 0)\<close> is 0 for \<^verbatim>\<open>j = 0\<close>, since no key is negative.
  The state is \<^verbatim>\<open>(newj2len, besti, bestj, bestsize)\<close>.
\<close>

type_synonym flm_state = "(nat \<rightharpoonup> nat) \<times> nat \<times> nat \<times> nat"

fun flm_inner :: "(nat \<rightharpoonup> nat) \<Rightarrow> nat \<Rightarrow> nat \<Rightarrow> nat \<Rightarrow> nat list \<Rightarrow> flm_state \<Rightarrow> flm_state" where
  "flm_inner j2len i blo bhi [] st = st"
| "flm_inner j2len i blo bhi (j # js) (newj2len, besti, bestj, bestsize) =
     (if j < blo then flm_inner j2len i blo bhi js (newj2len, besti, bestj, bestsize)
      else if j \<ge> bhi then (newj2len, besti, bestj, bestsize)
      else
        let k = (case j of 0 \<Rightarrow> 0
                 | Suc j' \<Rightarrow> (case j2len j' of None \<Rightarrow> 0 | Some l \<Rightarrow> l)) + 1
        in if k > bestsize
           then flm_inner j2len i blo bhi js (newj2len(j \<mapsto> k), i + 1 - k, j + 1 - k, k)
           else flm_inner j2len i blo bhi js (newj2len(j \<mapsto> k), besti, bestj, bestsize))"

text \<open>One round of the outer loop \<^verbatim>\<open>for i in range(alo, ahi)\<close>.\<close>

definition flm_step :: "'a list \<Rightarrow> 'a list \<Rightarrow> nat \<Rightarrow> nat \<Rightarrow> flm_state \<Rightarrow> nat \<Rightarrow> flm_state" where
  "flm_step a b blo bhi st i =
     (case st of (j2len, besti, bestj, bestsize) \<Rightarrow>
        flm_inner j2len i blo bhi (b2j b (a ! i)) (Map.empty, besti, bestj, bestsize))"

text \<open>
  The two loops that extend the best block by equal elements on each side. No element is
  junk, so \<^verbatim>\<open>not isbjunk(...)\<close> holds and the two later loops, which extend by junk
  only, never run their bodies.
\<close>

function extend_left :: "'a list \<Rightarrow> 'a list \<Rightarrow> nat \<Rightarrow> nat \<Rightarrow> nat \<times> nat \<times> nat \<Rightarrow> nat \<times> nat \<times> nat" where
  "extend_left a b alo blo (besti, bestj, bestsize) =
     (if besti > alo \<and> bestj > blo \<and> a ! (besti - 1) = b ! (bestj - 1)
      then extend_left a b alo blo (besti - 1, bestj - 1, bestsize + 1)
      else (besti, bestj, bestsize))"
  by pat_completeness auto
termination
  by (relation "measure (\<lambda>(a, b, alo, blo, besti, bestj, bestsize). besti)") auto

function extend_right :: "'a list \<Rightarrow> 'a list \<Rightarrow> nat \<Rightarrow> nat \<Rightarrow> nat \<times> nat \<times> nat \<Rightarrow> nat \<times> nat \<times> nat" where
  "extend_right a b ahi bhi (besti, bestj, bestsize) =
     (if besti + bestsize < ahi \<and> bestj + bestsize < bhi
         \<and> a ! (besti + bestsize) = b ! (bestj + bestsize)
      then extend_right a b ahi bhi (besti, bestj, bestsize + 1)
      else (besti, bestj, bestsize))"
  by pat_completeness auto
termination
  by (relation "measure (\<lambda>(a, b, ahi, bhi, besti, bestj, bestsize). ahi - (besti + bestsize))") auto

declare extend_left.simps [simp del] extend_right.simps [simp del]

definition find_longest_match :: "'a list \<Rightarrow> 'a list \<Rightarrow> nat \<Rightarrow> nat \<Rightarrow> nat \<Rightarrow> nat \<Rightarrow> nat \<times> nat \<times> nat" where
  "find_longest_match a b alo ahi blo bhi =
     (case foldl (flm_step a b blo bhi) (Map.empty, alo, blo, 0) [alo..<ahi] of
        (j2len, besti, bestj, bestsize) \<Rightarrow>
          extend_right a b ahi bhi (extend_left a b alo blo (besti, bestj, bestsize)))"


subsection \<open>The longest match lies inside the window\<close>

text \<open>
  The loop invariants of \<^verbatim>\<open>find_longest_match\<close>: every length stored in
  \<^verbatim>\<open>j2len\<close> is at most the number of rows and of columns seen so far in the window, so
  \<^verbatim>\<open>i-k+1\<close> and \<^verbatim>\<open>j-k+1\<close> are never negative (the subtraction on \<^typ>\<open>nat\<close>
  does not truncate), and the best block stays inside \<^verbatim>\<open>a[alo:ahi]\<close> and
  \<^verbatim>\<open>b[blo:bhi]\<close>. This is what makes the loop of \<^verbatim>\<open>get_matching_blocks\<close> stop.
\<close>

definition j2len_ok :: "nat \<Rightarrow> nat \<Rightarrow> nat \<Rightarrow> nat \<Rightarrow> (nat \<rightharpoonup> nat) \<Rightarrow> bool" where
  "j2len_ok alo blo bhi n m \<longleftrightarrow>
     (\<forall>j l. m j = Some l \<longrightarrow> l \<le> n - alo \<and> blo \<le> j \<and> j < bhi \<and> l \<le> j + 1 - blo)"

definition best_ok :: "nat \<Rightarrow> nat \<Rightarrow> nat \<Rightarrow> nat \<Rightarrow> nat \<times> nat \<times> nat \<Rightarrow> bool" where
  "best_ok alo blo bhi n t \<longleftrightarrow>
     (case t of (besti, bestj, bestsize) \<Rightarrow>
        alo \<le> besti \<and> blo \<le> bestj
        \<and> (bestsize = 0 \<longrightarrow> besti = alo \<and> bestj = blo)
        \<and> (bestsize \<noteq> 0 \<longrightarrow> besti + bestsize \<le> n \<and> bestj + bestsize \<le> bhi))"

lemma j2len_ok_prev:
  assumes "j2len_ok alo blo bhi i j2len" and "alo \<le> i" and "blo \<le> j"
  shows "(case j of 0 \<Rightarrow> 0 | Suc j' \<Rightarrow> (case j2len j' of None \<Rightarrow> 0 | Some l \<Rightarrow> l)) \<le> i - alo
       \<and> (case j of 0 \<Rightarrow> 0 | Suc j' \<Rightarrow> (case j2len j' of None \<Rightarrow> 0 | Some l \<Rightarrow> l)) \<le> j - blo"
proof (cases j)
  case 0
  then show ?thesis by simp
next
  case (Suc j')
  show ?thesis
  proof (cases "j2len j'")
    case None
    with Suc show ?thesis by simp
  next
    case (Some l)
    with assms(1) have "l \<le> i - alo \<and> blo \<le> j' \<and> l \<le> j' + 1 - blo"
      unfolding j2len_ok_def by blast
    with Suc Some show ?thesis by simp
  qed
qed

lemma j2len_ok_upd:
  assumes "j2len_ok alo blo bhi n m" and "k \<le> n - alo" and "blo \<le> j" and "j < bhi"
    and "k \<le> j + 1 - blo"
  shows "j2len_ok alo blo bhi n (m(j \<mapsto> k))"
  unfolding j2len_ok_def
proof (intro allI impI)
  fix j' l assume h: "(m(j \<mapsto> k)) j' = Some l"
  show "l \<le> n - alo \<and> blo \<le> j' \<and> j' < bhi \<and> l \<le> j' + 1 - blo"
  proof (cases "j' = j")
    case True
    with h assms show ?thesis by simp
  next
    case False
    with h have "m j' = Some l" by simp
    with assms(1) show ?thesis unfolding j2len_ok_def by blast
  qed
qed

lemma flm_inner_ok:
  assumes "j2len_ok alo blo bhi i j2len" and "alo \<le> i"
    and "j2len_ok alo blo bhi (Suc i) newj2len" and "best_ok alo blo bhi (Suc i) best"
    and "flm_inner j2len i blo bhi js (newj2len, best) = (m', best')"
  shows "j2len_ok alo blo bhi (Suc i) m' \<and> best_ok alo blo bhi (Suc i) best'"
  using assms(3,4,5)
proof (induction js arbitrary: newj2len best)
  case Nil
  then show ?case by simp
next
  case (Cons j js)
  obtain besti bestj bestsize where best: "best = (besti, bestj, bestsize)"
    by (cases best) auto
  show ?case
  proof (cases "j < blo")
    case True
    have "flm_inner j2len i blo bhi js (newj2len, best) = (m', best')"
      using Cons.prems(3) True best by simp
    from Cons.IH[OF Cons.prems(1,2) this] show ?thesis .
  next
    case lo: False
    show ?thesis
    proof (cases "bhi \<le> j")
      case True
      have "(newj2len, best) = (m', best')"
        using Cons.prems(3) lo True best by simp
      with Cons.prems(1,2) show ?thesis by simp
    next
      case hi: False
      define k where "k = (case j of 0 \<Rightarrow> 0
                 | Suc j' \<Rightarrow> (case j2len j' of None \<Rightarrow> 0 | Some l \<Rightarrow> l)) + 1"
      from lo have blo: "blo \<le> j" by simp
      from hi have bhi: "j < bhi" by simp
      from j2len_ok_prev[OF assms(1,2) blo]
      have kb: "k \<le> Suc i - alo" "k \<le> j + 1 - blo" "k \<noteq> 0"
        using assms(2) blo unfolding k_def by linarith+
      have new: "j2len_ok alo blo bhi (Suc i) (newj2len(j \<mapsto> k))"
        by (rule j2len_ok_upd[OF Cons.prems(1) kb(1) blo bhi kb(2)])
      show ?thesis
      proof (cases "k > bestsize")
        case True
        have b: "best_ok alo blo bhi (Suc i) (i + 1 - k, j + 1 - k, k)"
          using kb blo bhi assms(2) unfolding best_ok_def by (simp, arith)
        have "flm_inner j2len i blo bhi js (newj2len(j \<mapsto> k), i + 1 - k, j + 1 - k, k) = (m', best')"
          using Cons.prems(3) lo hi True best unfolding k_def by (simp add: Let_def)
        from Cons.IH[OF new b this] show ?thesis .
      next
        case False
        have "flm_inner j2len i blo bhi js (newj2len(j \<mapsto> k), best) = (m', best')"
          using Cons.prems(3) lo hi False best unfolding k_def by (simp add: Let_def)
        from Cons.IH[OF new Cons.prems(2) this] show ?thesis .
      qed
    qed
  qed
qed

lemma best_ok_mono: "best_ok alo blo bhi n t \<Longrightarrow> n \<le> n' \<Longrightarrow> best_ok alo blo bhi n' t"
  unfolding best_ok_def by (auto split: prod.splits)

lemma flm_step_ok:
  assumes "j2len_ok alo blo bhi i j2len" and "alo \<le> i" and "best_ok alo blo bhi i best"
    and "flm_step a b blo bhi (j2len, best) i = (m', best')"
  shows "j2len_ok alo blo bhi (Suc i) m' \<and> best_ok alo blo bhi (Suc i) best'"
proof -
  obtain besti bestj bestsize where best: "best = (besti, bestj, bestsize)"
    by (cases best) auto
  note 1 = assms(1)
  have 2: "j2len_ok alo blo bhi (Suc i) Map.empty" by (simp add: j2len_ok_def)
  have 3: "best_ok alo blo bhi (Suc i) best" using assms(3) by (rule best_ok_mono) simp
  have 4: "flm_inner j2len i blo bhi (b2j b (a ! i)) (Map.empty, best) = (m', best')"
    using assms(4) best by (simp add: flm_step_def)
  from flm_inner_ok[OF 1 assms(2) 2 3 4] show ?thesis .
qed

lemma flm_fold_ok:
  assumes "alo \<le> n"
  shows "case foldl (flm_step a b blo bhi) (Map.empty, alo, blo, 0) [alo..<n] of
           (m, best) \<Rightarrow> j2len_ok alo blo bhi n m \<and> best_ok alo blo bhi n best"
  using assms
proof (induction n rule: dec_induct)
  case base
  show ?case by (simp add: j2len_ok_def best_ok_def)
next
  case (step n)
  obtain m best where f: "foldl (flm_step a b blo bhi) (Map.empty, alo, blo, 0) [alo..<n] = (m, best)"
    by (cases "foldl (flm_step a b blo bhi) (Map.empty, alo, blo, 0) [alo..<n]") auto
  obtain m' best' where s: "flm_step a b blo bhi (m, best) n = (m', best')"
    by (cases "flm_step a b blo bhi (m, best) n") auto
  from step.IH f have "j2len_ok alo blo bhi n m" "best_ok alo blo bhi n best" by auto
  from flm_step_ok[OF this(1) step.hyps(1) this(2) s] show ?case
    using step.hyps(1) f s by simp
qed

lemma extend_left_ok:
  "best_ok alo blo bhi n t \<Longrightarrow> best_ok alo blo bhi n (extend_left a b alo blo t)"
proof (induction a b alo blo t rule: extend_left.induct)
  case (1 a b alo blo besti bestj bestsize)
  show ?case
  proof (cases "besti > alo \<and> bestj > blo \<and> a ! (besti - 1) = b ! (bestj - 1)")
    case True
    have "best_ok alo blo bhi n (besti - 1, bestj - 1, bestsize + 1)"
      using "1.prems" True unfolding best_ok_def by auto
    from "1.IH"[OF True this] True show ?thesis by (subst extend_left.simps) simp
  next
    case False
    then have "extend_left a b alo blo (besti, bestj, bestsize) = (besti, bestj, bestsize)"
      by (subst extend_left.simps) (simp only: if_False)
    with "1.prems" show ?thesis by simp
  qed
qed

lemma extend_right_ok:
  "best_ok alo blo bhi ahi t \<Longrightarrow> best_ok alo blo bhi ahi (extend_right a b ahi bhi t)"
proof (induction a b ahi bhi t rule: extend_right.induct)
  case (1 a b ahi bhi besti bestj bestsize)
  show ?case
  proof (cases "besti + bestsize < ahi \<and> bestj + bestsize < bhi
         \<and> a ! (besti + bestsize) = b ! (bestj + bestsize)")
    case True
    have "best_ok alo blo bhi ahi (besti, bestj, bestsize + 1)"
      using "1.prems" True unfolding best_ok_def by auto
    from "1.IH"[OF True this] True show ?thesis by (subst extend_right.simps) simp
  next
    case False
    then have "extend_right a b ahi bhi (besti, bestj, bestsize) = (besti, bestj, bestsize)"
      by (subst extend_right.simps) (simp only: if_False)
    with "1.prems" show ?thesis by simp
  qed
qed

lemma find_longest_match_bounds:
  assumes "find_longest_match a b alo ahi blo bhi = (i, j, k)"
  shows "alo \<le> i \<and> blo \<le> j \<and> (k \<noteq> 0 \<longrightarrow> i + k \<le> ahi \<and> j + k \<le> bhi)"
proof -
  obtain m best where f: "foldl (flm_step a b blo bhi) (Map.empty, alo, blo, 0) [alo..<ahi] = (m, best)"
    by (cases "foldl (flm_step a b blo bhi) (Map.empty, alo, blo, 0) [alo..<ahi]") auto
  have "best_ok alo blo bhi ahi best"
  proof (cases "alo \<le> ahi")
    case True
    from flm_fold_ok[OF True, of blo bhi a b] f show ?thesis by simp
  next
    case False
    with f have "best = (alo, blo, 0)" by simp
    then show ?thesis by (simp add: best_ok_def)
  qed
  then have "best_ok alo blo bhi ahi (extend_right a b ahi bhi (extend_left a b alo blo best))"
    by (intro extend_right_ok extend_left_ok)
  moreover have "extend_right a b ahi bhi (extend_left a b alo blo best) = (i, j, k)"
    using assms f by (cases best) (simp add: find_longest_match_def)
  ultimately show ?thesis by (simp add: best_ok_def)
qed


subsection \<open>Matching blocks and the similarity ratio\<close>

text \<open>
  \<^verbatim>\<open>get_matching_blocks\<close>: the \<^verbatim>\<open>while queue:\<close> loop. The Python list
  \<^verbatim>\<open>queue\<close> is used as a stack (\<^verbatim>\<open>append\<close>, \<^verbatim>\<open>pop\<close>); here its top is the head
  of the list, so the window pushed last (the one to the right of the block) comes first.
\<close>

function matching_loop ::
  "'a list \<Rightarrow> 'a list \<Rightarrow> (nat \<times> nat \<times> nat \<times> nat) list \<Rightarrow> (nat \<times> nat \<times> nat) list
     \<Rightarrow> (nat \<times> nat \<times> nat) list" where
  "matching_loop a b [] matching_blocks = matching_blocks"
| "matching_loop a b ((alo, ahi, blo, bhi) # queue) matching_blocks =
     (case find_longest_match a b alo ahi blo bhi of (i, j, k) \<Rightarrow>
        if k \<noteq> 0
        then matching_loop a b
               ((if i + k < ahi \<and> j + k < bhi then [(i + k, ahi, j + k, bhi)] else [])
                @ (if alo < i \<and> blo < j then [(alo, i, blo, j)] else []) @ queue)
               (matching_blocks @ [(i, j, k)])
        else matching_loop a b queue matching_blocks)"
  by pat_completeness auto
termination
proof (relation "measure (\<lambda>(a, b, queue, matching_blocks).
          sum_list (map (\<lambda>(alo, ahi, blo, bhi). 2 * (ahi - alo) + 1) queue))")
  show "wf (measure (\<lambda>(a, b, queue, matching_blocks).
          sum_list (map (\<lambda>(alo, ahi, blo, bhi). 2 * (ahi - alo) + 1) queue)))"
    by simp
next
  fix a b :: "'a list" and alo ahi blo bhi :: nat and queue :: "(nat \<times> nat \<times> nat \<times> nat) list"
    and matching_blocks :: "(nat \<times> nat \<times> nat) list" and x i y j k
  assume "(i, y) = find_longest_match a b alo ahi blo bhi" and "(j, k) = y" and "k \<noteq> 0"
  then have "find_longest_match a b alo ahi blo bhi = (i, j, k)" by simp
  from find_longest_match_bounds[OF this] \<open>k \<noteq> 0\<close>
  have "alo \<le> i" and "i + k \<le> ahi" by simp_all
  with \<open>k \<noteq> 0\<close>
  show "((a, b, (if i + k < ahi \<and> j + k < bhi then [(i + k, ahi, j + k, bhi)] else [])
                @ (if alo < i \<and> blo < j then [(alo, i, blo, j)] else []) @ queue,
             matching_blocks @ [(i, j, k)]),
            (a, b, (alo, ahi, blo, bhi) # queue, matching_blocks))
          \<in> measure (\<lambda>(a, b, queue, matching_blocks).
                sum_list (map (\<lambda>(alo, ahi, blo, bhi). 2 * (ahi - alo) + 1) queue))"
    by (simp, arith)
next
  fix a b :: "'a list" and alo ahi blo bhi :: nat and queue :: "(nat \<times> nat \<times> nat \<times> nat) list"
    and matching_blocks :: "(nat \<times> nat \<times> nat) list" and x i y j k
  show "((a, b, queue, matching_blocks), (a, b, (alo, ahi, blo, bhi) # queue, matching_blocks))
          \<in> measure (\<lambda>(a, b, queue, matching_blocks).
                sum_list (map (\<lambda>(alo, ahi, blo, bhi). 2 * (ahi - alo) + 1) queue))"
    by simp
qed

declare matching_loop.simps [simp del]

text \<open>
  After the loop the blocks are sorted and adjacent blocks are merged; the state of the
  merging loop is \<^verbatim>\<open>(i1, j1, k1)\<close>. A dummy block \<^verbatim>\<open>(la, lb, 0)\<close> ends the list.
\<close>

fun collapse_adjacent :: "(nat \<times> nat \<times> nat) list \<Rightarrow> nat \<times> nat \<times> nat \<Rightarrow> (nat \<times> nat \<times> nat) list" where
  "collapse_adjacent [] (i1, j1, k1) = (if k1 \<noteq> 0 then [(i1, j1, k1)] else [])"
| "collapse_adjacent ((i2, j2, k2) # rest) (i1, j1, k1) =
     (if i1 + k1 = i2 \<and> j1 + k1 = j2 then collapse_adjacent rest (i1, j1, k1 + k2)
      else (if k1 \<noteq> 0 then [(i1, j1, k1)] else []) @ collapse_adjacent rest (i2, j2, k2))"

definition get_matching_blocks :: "'a list \<Rightarrow> 'a list \<Rightarrow> (nat \<times> nat \<times> nat) list" where
  "get_matching_blocks a b =
     collapse_adjacent (sort (matching_loop a b [(0, length a, 0, length b)] [])) (0, 0, 0)
       @ [(length a, length b, 0)]"

definition ratio :: "'a list \<Rightarrow> 'a list \<Rightarrow> rat" where
  "ratio a b =
     calculate_ratio (sum_list (map (\<lambda>(i, j, k). k) (get_matching_blocks a b)))
       (length a + length b)"

text \<open>
  \<^verbatim>\<open>quick_ratio\<close>: \<^verbatim>\<open>fullbcount\<close> counts each element of \<^verbatim>\<open>b\<close>; the loop over
  \<^verbatim>\<open>a\<close> keeps in \<^verbatim>\<open>avail\<close> how many copies are left (the count may go negative).
\<close>

fun quick_loop :: "'a list \<Rightarrow> 'a list \<Rightarrow> ('a \<rightharpoonup> int) \<Rightarrow> nat \<Rightarrow> nat" where
  "quick_loop b [] avail matches = matches"
| "quick_loop b (elt # rest) avail matches =
     (let numb = (case avail elt of Some n \<Rightarrow> n | None \<Rightarrow> int (count_list b elt))
      in quick_loop b rest (avail(elt \<mapsto> numb - 1))
           (if numb > 0 then matches + 1 else matches))"

definition quick_ratio :: "'a list \<Rightarrow> 'a list \<Rightarrow> rat" where
  "quick_ratio a b = calculate_ratio (quick_loop b a Map.empty 0) (length a + length b)"

definition real_quick_ratio :: "'a list \<Rightarrow> 'a list \<Rightarrow> rat" where
  "real_quick_ratio a b =
     calculate_ratio (min (length a) (length b)) (length a + length b)"

text \<open>
  \<^verbatim>\<open>get_close_matches(word, possibilities, n=1, cutoff=0.6)\<close>. Both argument checks pass
  for these constants. \<^verbatim>\<open>heapq.nlargest(1, result)\<close> is \<^verbatim>\<open>max(result)\<close>, or the empty
  list when \<^verbatim>\<open>result\<close> is empty; \<^verbatim>\<open>max\<close> keeps the first item unless a later one is
  strictly greater, and compares the pairs \<^verbatim>\<open>(score, x)\<close> by score first, then by
  \<^verbatim>\<open>x\<close>.
\<close>

definition cutoff :: rat where
  "cutoff = 6 / 10"

definition py_max :: "'b::linorder \<Rightarrow> 'b list \<Rightarrow> 'b" where
  "py_max x xs = foldl (\<lambda>maxitem item. if item > maxitem then item else maxitem) x xs"

definition nlargest1 :: "'b::linorder list \<Rightarrow> 'b list" where
  "nlargest1 result = (case result of [] \<Rightarrow> [] | x # xs \<Rightarrow> [py_max x xs])"

definition close_enough :: "'a list \<Rightarrow> 'a list \<Rightarrow> bool" where
  "close_enough word x \<longleftrightarrow>
     real_quick_ratio x word \<ge> cutoff \<and> quick_ratio x word \<ge> cutoff \<and> ratio x word \<ge> cutoff"

definition get_close_matches :: "'a::linorder list \<Rightarrow> 'a list list \<Rightarrow> 'a list list" where
  "get_close_matches word possibilities =
     map snd (nlargest1 (map (\<lambda>x. (ratio x word, x)) (filter (close_enough word) possibilities)))"


subsection \<open>What \<^verbatim>\<open>get_close_matches\<close> returns\<close>

text \<open>
  The result is empty or a single candidate: the one whose pair \<^verbatim>\<open>(score, x)\<close> is the
  greatest among the candidates that pass the three cutoff tests. It depends on the set of
  candidates only, not on the order in which they are visited.
\<close>

lemma py_max_eq_Max: "py_max x xs = Max (set (x # xs))"
proof -
  have "(\<lambda>maxitem item. if item > maxitem then item else maxitem) = (\<lambda>(m::'a) i. max i m)"
    by (intro ext) (auto simp: max_def)
  then have "py_max x xs = fold max xs x"
    by (simp add: py_max_def foldl_conv_fold)
  then show ?thesis by (simp only: Max.set_eq_fold)
qed

definition scored :: "'a::linorder list \<Rightarrow> 'a list list \<Rightarrow> (rat \<times> 'a list) set" where
  "scored word possibilities =
     (\<lambda>x. (ratio x word, x)) ` {x \<in> set possibilities. close_enough word x}"

lemma get_close_matches_eq:
  "get_close_matches word ps =
     (if scored word ps = {} then [] else [snd (Max (scored word ps))])"
proof (cases "filter (close_enough word) ps")
  case Nil
  then have "scored word ps = {}"
    by (auto simp: scored_def filter_empty_conv)
  with Nil show ?thesis by (simp add: get_close_matches_def nlargest1_def)
next
  case (Cons y ys)
  have "scored word ps = set (map (\<lambda>x. (ratio x word, x)) (filter (close_enough word) ps))"
    by (auto simp: scored_def)
  with Cons have s: "scored word ps = set ((ratio y word, y) # map (\<lambda>x. (ratio x word, x)) ys)"
    by simp
  then have "scored word ps \<noteq> {}" by simp
  with Cons s show ?thesis
    by (simp add: get_close_matches_def nlargest1_def py_max_eq_Max del: set_simps)
qed

lemma finite_scored [simp]: "finite (scored word ps)"
  by (simp add: scored_def)

lemma get_close_matches_cong:
  "set ps = set ps' \<Longrightarrow> get_close_matches word ps = get_close_matches word ps'"
  by (simp add: get_close_matches_eq scored_def)

lemma get_close_matches_Nil:
  "get_close_matches word ps = [] \<longleftrightarrow> (\<forall>x \<in> set ps. \<not> close_enough word x)"
  by (auto simp: get_close_matches_eq scored_def)

lemma get_close_matches_Cons:
  assumes "get_close_matches word ps = x # xs"
  shows "xs = [] \<and> x \<in> set ps \<and> close_enough word x
       \<and> (\<forall>y \<in> set ps. close_enough word y \<longrightarrow> (ratio y word, y) \<le> (ratio x word, x))"
proof -
  from assms have ne: "scored word ps \<noteq> {}" and x: "x = snd (Max (scored word ps))" and "xs = []"
    by (auto simp: get_close_matches_eq split: if_splits)
  from ne have "Max (scored word ps) \<in> scored word ps" by (intro Max_in) simp_all
  then obtain z where z: "z \<in> set ps" "close_enough word z" "Max (scored word ps) = (ratio z word, z)"
    by (auto simp: scored_def)
  with x have xz: "x = z" by simp
  have "\<forall>y \<in> set ps. close_enough word y \<longrightarrow> (ratio y word, y) \<le> (ratio x word, x)"
  proof (intro ballI impI)
    fix y assume "y \<in> set ps" "close_enough word y"
    then have "(ratio y word, y) \<in> scored word ps" by (auto simp: scored_def)
    then have "(ratio y word, y) \<le> Max (scored word ps)" by (intro Max_ge) simp_all
    with z xz show "(ratio y word, y) \<le> (ratio x word, x)" by simp
  qed
  with z xz \<open>xs = []\<close> show ?thesis by simp
qed

subsection \<open>The two quick ratios are upper bounds\<close>

text \<open>
  \<^verbatim>\<open>get_close_matches\<close> computes \<^verbatim>\<open>ratio\<close> only for candidates that pass
  \<^verbatim>\<open>real_quick_ratio\<close> and \<^verbatim>\<open>quick_ratio\<close>. Both are upper bounds of \<^verbatim>\<open>ratio\<close>, so the
  three tests together hold exactly when the ratio reaches the cutoff. The proof: every block
  found by \<^verbatim>\<open>find_longest_match\<close> pairs equal elements; the blocks of one run lie in disjoint
  windows; hence their total length is at most the number of elements the two sequences have
  in common as multisets, which is what \<^verbatim>\<open>quick_ratio\<close> counts.
\<close>

definition j2len_match :: "'a list \<Rightarrow> 'a list \<Rightarrow> nat \<Rightarrow> (nat \<rightharpoonup> nat) \<Rightarrow> bool" where
  "j2len_match a b n m \<longleftrightarrow> (\<forall>j l. m j = Some l \<longrightarrow> (\<forall>t<l. a ! (n - Suc t) = b ! (j - t)))"

definition best_match :: "'a list \<Rightarrow> 'a list \<Rightarrow> nat \<times> nat \<times> nat \<Rightarrow> bool" where
  "best_match a b t \<longleftrightarrow>
     (case t of (besti, bestj, bestsize) \<Rightarrow> \<forall>t<bestsize. a ! (besti + t) = b ! (bestj + t))"

lemma b2j_nth: "j \<in> set (b2j b e) \<Longrightarrow> b ! j = e"
  by (auto simp: b2j_def split: if_splits)

lemma j2len_match_prev:
  assumes "j2len_ok alo blo bhi i j2len" and "j2len_match a b i j2len" and "b ! j = a ! i"
    and "k = (case j of 0 \<Rightarrow> 0 | Suc j' \<Rightarrow> (case j2len j' of None \<Rightarrow> 0 | Some l \<Rightarrow> l)) + 1"
  shows "\<forall>t<k. a ! (Suc i - Suc t) = b ! (j - t)"
proof (intro allI impI)
  fix t assume t: "t < k"
  show "a ! (Suc i - Suc t) = b ! (j - t)"
  proof (cases t)
    case 0
    with assms(3) show ?thesis by simp
  next
    case (Suc t')
    with t assms(4) obtain j' l where j: "j = Suc j'" and l: "j2len j' = Some l" and tl: "t' < l"
      by (auto split: nat.splits option.splits)
    from assms(1) l have "l \<le> i - alo" "l \<le> j' + 1 - blo"
      unfolding j2len_ok_def by blast+
    with tl have b: "Suc t' \<le> i" "t' \<le> j'" by simp_all
    from assms(2) l tl have "a ! (i - Suc t') = b ! (j' - t')"
      unfolding j2len_match_def by blast
    with Suc j b show ?thesis by simp
  qed
qed

lemma best_match_new:
  assumes "\<forall>t<k. a ! (Suc i - Suc t) = b ! (j - t)" and "k \<le> Suc i" and "k \<le> Suc j"
  shows "best_match a b (i + 1 - k, j + 1 - k, k)"
  unfolding best_match_def
proof (clarify)
  fix t assume t: "t < k"
  then have "k - Suc t < k" by simp
  with assms(1) have "a ! (Suc i - Suc (k - Suc t)) = b ! (j - (k - Suc t))" by blast
  moreover have "Suc i - Suc (k - Suc t) = i + 1 - k + t" "j - (k - Suc t) = j + 1 - k + t"
    using t assms(2,3) by simp_all
  ultimately show "a ! (i + 1 - k + t) = b ! (j + 1 - k + t)" by simp
qed

lemma flm_inner_match:
  assumes "j2len_ok alo blo bhi i j2len" and "alo \<le> i" and "j2len_match a b i j2len"
    and "\<forall>j \<in> set js. b ! j = a ! i"
    and "j2len_match a b (Suc i) newj2len" and "best_match a b best"
    and "flm_inner j2len i blo bhi js (newj2len, best) = (m', best')"
  shows "j2len_match a b (Suc i) m' \<and> best_match a b best'"
  using assms(4,5,6,7)
proof (induction js arbitrary: newj2len best)
  case Nil
  then show ?case by simp
next
  case (Cons j js)
  obtain besti bestj bestsize where best: "best = (besti, bestj, bestsize)"
    by (cases best) auto
  from Cons.prems(1) have js: "\<forall>j \<in> set js. b ! j = a ! i" and bj: "b ! j = a ! i" by simp_all
  show ?case
  proof (cases "j < blo")
    case True
    have "flm_inner j2len i blo bhi js (newj2len, best) = (m', best')"
      using Cons.prems(4) True best by simp
    from Cons.IH[OF js Cons.prems(2,3) this] show ?thesis .
  next
    case lo: False
    show ?thesis
    proof (cases "bhi \<le> j")
      case True
      have "(newj2len, best) = (m', best')"
        using Cons.prems(4) lo True best by simp
      with Cons.prems(2,3) show ?thesis by simp
    next
      case hi: False
      define k where "k = (case j of 0 \<Rightarrow> 0
                 | Suc j' \<Rightarrow> (case j2len j' of None \<Rightarrow> 0 | Some l \<Rightarrow> l)) + 1"
      from lo have blo: "blo \<le> j" by simp
      from j2len_ok_prev[OF assms(1,2) blo]
      have kb: "k \<le> Suc i" "k \<le> Suc j"
        unfolding k_def by linarith+
      have m: "\<forall>t<k. a ! (Suc i - Suc t) = b ! (j - t)"
        by (rule j2len_match_prev[OF assms(1,3) bj k_def])
      have new: "j2len_match a b (Suc i) (newj2len(j \<mapsto> k))"
        using Cons.prems(2) m unfolding j2len_match_def by auto
      show ?thesis
      proof (cases "k > bestsize")
        case True
        have b: "best_match a b (i + 1 - k, j + 1 - k, k)"
          by (rule best_match_new[OF m kb])
        have "flm_inner j2len i blo bhi js (newj2len(j \<mapsto> k), i + 1 - k, j + 1 - k, k) = (m', best')"
          using Cons.prems(4) lo hi True best unfolding k_def by (simp add: Let_def)
        from Cons.IH[OF js new b this] show ?thesis .
      next
        case False
        have "flm_inner j2len i blo bhi js (newj2len(j \<mapsto> k), best) = (m', best')"
          using Cons.prems(4) lo hi False best unfolding k_def by (simp add: Let_def)
        from Cons.IH[OF js new Cons.prems(3) this] show ?thesis .
      qed
    qed
  qed
qed

lemma flm_fold_match:
  assumes "alo \<le> n"
  shows "case foldl (flm_step a b blo bhi) (Map.empty, alo, blo, 0) [alo..<n] of
           (m, best) \<Rightarrow> j2len_match a b n m \<and> best_match a b best"
  using assms
proof (induction n rule: dec_induct)
  case base
  show ?case by (simp add: j2len_match_def best_match_def)
next
  case (step n)
  obtain m best where f: "foldl (flm_step a b blo bhi) (Map.empty, alo, blo, 0) [alo..<n] = (m, best)"
    by (cases "foldl (flm_step a b blo bhi) (Map.empty, alo, blo, 0) [alo..<n]") auto
  obtain m' best' where s: "flm_step a b blo bhi (m, best) n = (m', best')"
    by (cases "flm_step a b blo bhi (m, best) n") auto
  from step.IH f have ih: "j2len_match a b n m" "best_match a b best" by auto
  from flm_fold_ok[OF step.hyps(1), of blo bhi a b] f have ok: "j2len_ok alo blo bhi n m" by simp
  have e: "j2len_match a b (Suc n) Map.empty" by (simp add: j2len_match_def)
  have js: "\<forall>j \<in> set (b2j b (a ! n)). b ! j = a ! n" by (simp add: b2j_nth)
  obtain besti bestj bestsize where best: "best = (besti, bestj, bestsize)"
    by (cases best) auto
  have 4: "flm_inner m n blo bhi (b2j b (a ! n)) (Map.empty, best) = (m', best')"
    using s best by (simp add: flm_step_def)
  from flm_inner_match[OF ok step.hyps(1) ih(1) js e ih(2) 4] show ?case
    using step.hyps(1) f s by simp
qed

lemma extend_left_match:
  "best_match a b t \<Longrightarrow> best_match a b (extend_left a b alo blo t)"
proof (induction a b alo blo t rule: extend_left.induct)
  case (1 a b alo blo besti bestj bestsize)
  show ?case
  proof (cases "besti > alo \<and> bestj > blo \<and> a ! (besti - 1) = b ! (bestj - 1)")
    case True
    have "best_match a b (besti - 1, bestj - 1, bestsize + 1)"
      unfolding best_match_def
    proof (clarify)
      fix t assume "t < bestsize + 1"
      show "a ! (besti - 1 + t) = b ! (bestj - 1 + t)"
      proof (cases t)
        case 0
        with True show ?thesis by simp
      next
        case (Suc t')
        with \<open>t < bestsize + 1\<close> "1.prems" have "a ! (besti + t') = b ! (bestj + t')"
          unfolding best_match_def by simp
        with Suc True show ?thesis by simp
      qed
    qed
    from "1.IH"[OF True this] True show ?thesis by (subst extend_left.simps) simp
  next
    case False
    then have "extend_left a b alo blo (besti, bestj, bestsize) = (besti, bestj, bestsize)"
      by (subst extend_left.simps) (simp only: if_False)
    with "1.prems" show ?thesis by simp
  qed
qed

lemma extend_right_match:
  "best_match a b t \<Longrightarrow> best_match a b (extend_right a b ahi bhi t)"
proof (induction a b ahi bhi t rule: extend_right.induct)
  case (1 a b ahi bhi besti bestj bestsize)
  show ?case
  proof (cases "besti + bestsize < ahi \<and> bestj + bestsize < bhi
         \<and> a ! (besti + bestsize) = b ! (bestj + bestsize)")
    case True
    have "best_match a b (besti, bestj, bestsize + 1)"
      using "1.prems" True unfolding best_match_def by (auto simp: less_Suc_eq)
    from "1.IH"[OF True this] True show ?thesis by (subst extend_right.simps) simp
  next
    case False
    then have "extend_right a b ahi bhi (besti, bestj, bestsize) = (besti, bestj, bestsize)"
      by (subst extend_right.simps) (simp only: if_False)
    with "1.prems" show ?thesis by simp
  qed
qed

lemma find_longest_match_equal:
  assumes "find_longest_match a b alo ahi blo bhi = (i, j, k)"
  shows "\<forall>t<k. a ! (i + t) = b ! (j + t)"
proof -
  obtain m best where f: "foldl (flm_step a b blo bhi) (Map.empty, alo, blo, 0) [alo..<ahi] = (m, best)"
    by (cases "foldl (flm_step a b blo bhi) (Map.empty, alo, blo, 0) [alo..<ahi]") auto
  have "best_match a b best"
  proof (cases "alo \<le> ahi")
    case True
    from flm_fold_match[OF True, of a b blo bhi] f show ?thesis by simp
  next
    case False
    with f have "best = (alo, blo, 0)" by simp
    then show ?thesis by (simp add: best_match_def)
  qed
  then have "best_match a b (extend_right a b ahi bhi (extend_left a b alo blo best))"
    by (intro extend_right_match extend_left_match)
  moreover have "extend_right a b ahi bhi (extend_left a b alo blo best) = (i, j, k)"
    using assms f by (cases best) (simp add: find_longest_match_def)
  ultimately show ?thesis by (simp add: best_match_def)
qed

definition slice :: "'a list \<Rightarrow> nat \<Rightarrow> nat \<Rightarrow> 'a list" where
  "slice xs lo hi = take (hi - lo) (drop lo xs)"

definition common :: "'a list \<Rightarrow> 'a list \<Rightarrow> nat" where
  "common xs ys = size (mset xs \<inter># mset ys)"

lemma slice_split:
  assumes "lo \<le> mid" and "mid \<le> hi"
  shows "slice xs lo hi = slice xs lo mid @ slice xs mid hi"
proof -
  have "hi - lo = (mid - lo) + (hi - mid)" using assms by simp
  then have "take (hi - lo) (drop lo xs)
               = take (mid - lo) (drop lo xs) @ take (hi - mid) (drop (mid - lo) (drop lo xs))"
    by (simp only: take_add)
  with assms show ?thesis by (simp add: slice_def)
qed

lemma slice_eq:
  assumes "\<forall>t<k. a ! (i + t) = b ! (j + t)" and "i + k \<le> length a" and "j + k \<le> length b"
  shows "slice a i (i + k) = slice b j (j + k)"
proof (rule nth_equalityI)
  show "length (slice a i (i + k)) = length (slice b j (j + k))"
    using assms(2,3) by (simp add: slice_def)
next
  fix t assume "t < length (slice a i (i + k))"
  with assms(2) have t: "t < k" by (simp add: slice_def)
  with assms show "slice a i (i + k) ! t = slice b j (j + k) ! t"
    by (simp add: slice_def)
qed

lemma length_slice: "hi \<le> length xs \<Longrightarrow> length (slice xs lo hi) = hi - lo"
  by (simp add: slice_def)

lemma slice_all [simp]: "slice xs 0 (length xs) = xs"
  by (simp add: slice_def)

lemma common_split:
  "common x1 y1 + length c + common x2 y2 \<le> common (x1 @ c @ x2) (y1 @ c @ y2)"
proof -
  have "(mset x1 \<inter># mset y1) + mset c + (mset x2 \<inter># mset y2)
          \<subseteq># (mset x1 + mset c + mset x2) \<inter># (mset y1 + mset c + mset y2)"
    by (rule mset_subset_eqI) (simp, arith)
  then have "size ((mset x1 \<inter># mset y1) + mset c + (mset x2 \<inter># mset y2))
          \<le> size ((mset x1 + mset c + mset x2) \<inter># (mset y1 + mset c + mset y2))"
    by (rule size_mset_mono)
  then show ?thesis by (simp add: common_def ac_simps)
qed

lemma common_le: "common xs ys \<le> min (length xs) (length ys)"
proof -
  have "size (mset xs \<inter># mset ys) \<le> size (mset xs)" "size (mset xs \<inter># mset ys) \<le> size (mset ys)"
    by (rule size_mset_mono; simp)+
  then show ?thesis by (simp add: common_def)
qed


definition window_ok :: "'a list \<Rightarrow> 'a list \<Rightarrow> nat \<times> nat \<times> nat \<times> nat \<Rightarrow> bool" where
  "window_ok a b w \<longleftrightarrow>
     (case w of (alo, ahi, blo, bhi) \<Rightarrow> alo \<le> ahi \<and> ahi \<le> length a \<and> blo \<le> bhi \<and> bhi \<le> length b)"

definition window_common :: "'a list \<Rightarrow> 'a list \<Rightarrow> nat \<times> nat \<times> nat \<times> nat \<Rightarrow> nat" where
  "window_common a b w =
     (case w of (alo, ahi, blo, bhi) \<Rightarrow> common (slice a alo ahi) (slice b blo bhi))"

definition block_size :: "nat \<times> nat \<times> nat \<Rightarrow> nat" where
  "block_size t = (case t of (i, j, k) \<Rightarrow> k)"

lemma window_split:
  assumes "window_ok a b (alo, ahi, blo, bhi)"
    and "find_longest_match a b alo ahi blo bhi = (i, j, k)" and "k \<noteq> 0"
  shows "window_ok a b (alo, i, blo, j)" and "window_ok a b (i + k, ahi, j + k, bhi)"
    and "window_common a b (alo, i, blo, j) + k + window_common a b (i + k, ahi, j + k, bhi)
           \<le> window_common a b (alo, ahi, blo, bhi)"
proof -
  from find_longest_match_bounds[OF assms(2)] assms(3)
  have b: "alo \<le> i" "blo \<le> j" "i + k \<le> ahi" "j + k \<le> bhi" by simp_all
  from assms(1) have w: "ahi \<le> length a" "bhi \<le> length b"
    by (simp_all add: window_ok_def)
  from b w show "window_ok a b (alo, i, blo, j)" and "window_ok a b (i + k, ahi, j + k, bhi)"
    by (simp_all add: window_ok_def)
  have eq: "slice a i (i + k) = slice b j (j + k)"
    using find_longest_match_equal[OF assms(2)] b w by (intro slice_eq) simp_all
  have la: "slice a alo ahi = slice a alo i @ slice a i (i + k) @ slice a (i + k) ahi"
    using b by (simp add: slice_split[of alo i ahi] slice_split[of i "i + k" ahi])
  have lb: "slice b blo bhi = slice b blo j @ slice b j (j + k) @ slice b (j + k) bhi"
    using b by (simp add: slice_split[of blo j bhi] slice_split[of j "j + k" bhi])
  have len: "length (slice b j (j + k)) = k" using b w by (simp add: length_slice)
  from common_split[of "slice a alo i" "slice b blo j" "slice b j (j + k)"
      "slice a (i + k) ahi" "slice b (j + k) bhi"]
  show "window_common a b (alo, i, blo, j) + k + window_common a b (i + k, ahi, j + k, bhi)
           \<le> window_common a b (alo, ahi, blo, bhi)"
    unfolding window_common_def prod.case la lb eq len by simp
qed

lemma matching_loop_bound:
  assumes "\<forall>w \<in> set queue. window_ok a b w"
  shows "sum_list (map block_size (matching_loop a b queue blocks))
           \<le> sum_list (map block_size blocks) + sum_list (map (window_common a b) queue)"
  using assms
proof (induction a b queue blocks rule: matching_loop.induct)
  case (1 a b blocks)
  show ?case by (simp add: matching_loop.simps)
next
  case (2 a b alo ahi blo bhi queue blocks)
  obtain i j k where f: "find_longest_match a b alo ahi blo bhi = (i, j, k)"
    by (cases "find_longest_match a b alo ahi blo bhi") auto
  from "2.prems" have w: "window_ok a b (alo, ahi, blo, bhi)"
    and q: "\<forall>w \<in> set queue. window_ok a b w" by simp_all
  show ?case
  proof (cases "k = 0")
    case True
    from "2.IH"(2)[OF f[symmetric] refl _ q] True
    have "sum_list (map block_size (matching_loop a b queue blocks))
           \<le> sum_list (map block_size blocks) + sum_list (map (window_common a b) queue)"
      by simp
    with f True show ?thesis by (simp add: matching_loop.simps)
  next
    case False
    let ?right = "if i + k < ahi \<and> j + k < bhi then [(i + k, ahi, j + k, bhi)] else []"
    let ?left = "if alo < i \<and> blo < j then [(alo, i, blo, j)] else []"
    note s = window_split[OF w f False]
    have ok: "\<forall>w \<in> set (?right @ ?left @ queue). window_ok a b w"
      using s(1,2) q by auto
    from "2.IH"(1)[OF f[symmetric] refl False ok]
    have "sum_list (map block_size (matching_loop a b (?right @ ?left @ queue) (blocks @ [(i, j, k)])))
           \<le> sum_list (map block_size (blocks @ [(i, j, k)]))
              + sum_list (map (window_common a b) (?right @ ?left @ queue))" .
    also have "\<dots> \<le> sum_list (map block_size blocks) + k
              + (window_common a b (i + k, ahi, j + k, bhi) + window_common a b (alo, i, blo, j)
                 + sum_list (map (window_common a b) queue))"
      by (simp add: block_size_def)
    also have "\<dots> \<le> sum_list (map block_size blocks)
              + (window_common a b (alo, ahi, blo, bhi) + sum_list (map (window_common a b) queue))"
      using s(3) by simp
    finally show ?thesis using f False by (simp add: matching_loop.simps)
  qed
qed

lemma collapse_adjacent_sum:
  "sum_list (map block_size (collapse_adjacent blocks (i1, j1, k1)))
     = k1 + sum_list (map block_size blocks)"
  by (induction blocks "(i1, j1, k1)" arbitrary: i1 j1 k1 rule: collapse_adjacent.induct)
     (simp_all add: block_size_def)

lemma sort_sum: "sum_list (map f (sort xs)) = sum_list (map (f :: _ \<Rightarrow> nat) xs)"
proof -
  have "mset (map f (sort xs)) = mset (map f xs)" by simp
  then show ?thesis by (metis sum_mset_sum_list)
qed

lemma block_size_simp [simp]: "block_size (i, j, k) = k"
  by (simp add: block_size_def)

lemma matches_le_common:
  "sum_list (map (\<lambda>(i, j, k). k) (get_matching_blocks a b)) \<le> common a b"
proof -
  have "sum_list (map block_size (get_matching_blocks a b))
          = sum_list (map block_size (matching_loop a b [(0, length a, 0, length b)] []))"
    by (simp add: get_matching_blocks_def collapse_adjacent_sum sort_sum)
  also have "\<dots> \<le> sum_list (map block_size [])
                + sum_list (map (window_common a b) [(0, length a, 0, length b)])"
    by (rule matching_loop_bound) (simp add: window_ok_def)
  finally have "sum_list (map block_size (get_matching_blocks a b)) \<le> common a b"
    by (simp add: window_common_def)
  moreover have "(\<lambda>(i, j, k). k) = block_size" by (simp add: block_size_def fun_eq_iff)
  ultimately show ?thesis by simp
qed

lemma common_Cons_in:
  "x \<in># M \<Longrightarrow> size (mset (x # xs) \<inter># M) = Suc (size (mset xs \<inter># (M - {#x#})))"
proof -
  assume "x \<in># M"
  then obtain M' where M: "M = add_mset x M'" by (meson mset_add)
  then show ?thesis by simp
qed

lemma common_Cons_notin:
  "x \<notin># M \<Longrightarrow> size (mset (x # xs) \<inter># M) = size (mset xs \<inter># M)"
  by (simp add: add_mset_inter_add_mset inter_add_left1)

lemma quick_loop_common:
  assumes "\<forall>e. int (count M e)
             = max 0 (case avail e of Some n \<Rightarrow> n | None \<Rightarrow> int (count_list b e))"
  shows "quick_loop b rest avail matches = matches + size (mset rest \<inter># M)"
  using assms
proof (induction rest arbitrary: avail matches M)
  case Nil
  show ?case by simp
next
  case (Cons elt rest)
  define numb where "numb = (case avail elt of Some n \<Rightarrow> n | None \<Rightarrow> int (count_list b elt))"
  have c: "int (count M elt) = max 0 numb" using Cons.prems unfolding numb_def by blast
  show ?case
  proof (cases "numb > 0")
    case True
    with c have in_M: "elt \<in># M" by (simp add: count_greater_zero_iff[symmetric] del: count_greater_zero_iff)
    have "\<forall>e. int (count (M - {#elt#}) e)
            = max 0 (case (avail(elt \<mapsto> numb - 1)) e of Some n \<Rightarrow> n | None \<Rightarrow> int (count_list b e))"
    proof
      fix e
      show "int (count (M - {#elt#}) e)
            = max 0 (case (avail(elt \<mapsto> numb - 1)) e of Some n \<Rightarrow> n | None \<Rightarrow> int (count_list b e))"
      proof (cases "e = elt")
        case True
        with c \<open>numb > 0\<close> show ?thesis by simp
      next
        case False
        with Cons.prems show ?thesis by simp
      qed
    qed
    from Cons.IH[of "M - {#elt#}" "avail(elt \<mapsto> numb - 1)" "matches + 1", OF this]
    have ih: "quick_loop b rest (avail(elt \<mapsto> numb - 1)) (matches + 1)
                = matches + 1 + size (mset rest \<inter># (M - {#elt#}))" .
    have step: "quick_loop b (elt # rest) avail matches
                = quick_loop b rest (avail(elt \<mapsto> numb - 1)) (matches + 1)"
      using True unfolding numb_def quick_loop.simps Let_def by (simp only: if_True)
    show ?thesis unfolding step ih common_Cons_in[OF in_M] by simp
  next
    case False
    with c have notin: "elt \<notin># M" by (simp add: not_in_iff)
    have "\<forall>e. int (count M e)
            = max 0 (case (avail(elt \<mapsto> numb - 1)) e of Some n \<Rightarrow> n | None \<Rightarrow> int (count_list b e))"
    proof
      fix e
      show "int (count M e)
            = max 0 (case (avail(elt \<mapsto> numb - 1)) e of Some n \<Rightarrow> n | None \<Rightarrow> int (count_list b e))"
      proof (cases "e = elt")
        case True
        with c False show ?thesis by simp
      next
        case False
        with Cons.prems show ?thesis by simp
      qed
    qed
    from Cons.IH[of M "avail(elt \<mapsto> numb - 1)" matches, OF this]
    have ih: "quick_loop b rest (avail(elt \<mapsto> numb - 1)) matches
                = matches + size (mset rest \<inter># M)" .
    have step: "quick_loop b (elt # rest) avail matches
                = quick_loop b rest (avail(elt \<mapsto> numb - 1)) matches"
      using False unfolding numb_def quick_loop.simps Let_def by (simp only: if_False)
    show ?thesis unfolding step ih common_Cons_notin[OF notin] by simp
  qed
qed

lemma quick_loop_eq_common: "quick_loop b a Map.empty 0 = common a b"
proof -
  have "\<forall>e. int (count (mset b) e)
          = max 0 (case Map.empty e of Some n \<Rightarrow> n | None \<Rightarrow> int (count_list b e))"
    by (simp add: count_mset)
  from quick_loop_common[OF this, of a 0] show ?thesis by (simp add: common_def)
qed

lemma calculate_ratio_mono: "m \<le> m' \<Longrightarrow> calculate_ratio m n \<le> calculate_ratio m' n"
  by (simp add: calculate_ratio_def divide_right_mono)

lemma ratio_le_quick_ratio: "ratio a b \<le> quick_ratio a b"
  unfolding ratio_def quick_ratio_def quick_loop_eq_common
  by (rule calculate_ratio_mono[OF matches_le_common])

lemma quick_ratio_le_real_quick_ratio: "quick_ratio a b \<le> real_quick_ratio a b"
  unfolding quick_ratio_def real_quick_ratio_def quick_loop_eq_common
  by (rule calculate_ratio_mono[OF common_le])

lemma close_enough_iff: "close_enough word x \<longleftrightarrow> cutoff \<le> ratio x word"
  using ratio_le_quick_ratio[of x word] quick_ratio_le_real_quick_ratio[of x word]
  by (auto simp: close_enough_def)


lemma get_close_matches_Nil_iff:
  "get_close_matches word ps = [] \<longleftrightarrow> (\<forall>x \<in> set ps. ratio x word < cutoff)"
  by (auto simp: get_close_matches_Nil close_enough_iff not_le)

lemma get_close_matches_best:
  assumes "get_close_matches word ps = x # xs"
  shows "x \<in> set ps" and "cutoff \<le> ratio x word"
    and "\<forall>y \<in> set ps. ratio y word \<le> ratio x word"
    and "\<forall>y \<in> set ps. ratio y word = ratio x word \<longrightarrow> y \<le> x"
proof -
  note c = get_close_matches_Cons[OF assms]
  from c show "x \<in> set ps" and x: "cutoff \<le> ratio x word"
    by (simp_all add: close_enough_iff)
  have le: "(ratio y word, y) \<le> (ratio x word, x)" if "y \<in> set ps" "cutoff \<le> ratio y word" for y
    using c that by (simp add: close_enough_iff)
  show "\<forall>y \<in> set ps. ratio y word \<le> ratio x word"
  proof
    fix y assume y: "y \<in> set ps"
    show "ratio y word \<le> ratio x word"
    proof (cases "cutoff \<le> ratio y word")
      case True
      from le[OF y True] show ?thesis by (auto simp: less_eq_prod_def)
    next
      case False
      with x show ?thesis by simp
    qed
  qed
  show "\<forall>y \<in> set ps. ratio y word = ratio x word \<longrightarrow> y \<le> x"
  proof (intro ballI impI)
    fix y assume y: "y \<in> set ps" and e: "ratio y word = ratio x word"
    with x have "cutoff \<le> ratio y word" by simp
    from le[OF y this] e show "y \<le> x" by (simp add: less_eq_prod_def)
  qed
qed

section \<open>The geography reconciler (lines 43--58 of \<^verbatim>\<open>dashboard.py\<close>)\<close>

text \<open>
  \<^verbatim>\<open>geojson_states\<close>, \<^verbatim>\<open>csv_states\<close> and \<^verbatim>\<open>mismatches\<close> are Python sets of names. A set
  is modelled by a list of its elements in the order in which Python happens to iterate over
  it; that order is not fixed by the language, so the theorems below hold for every order.
  The dictionaries \<^verbatim>\<open>manual_fix\<close> and \<^verbatim>\<open>state_fix_map\<close> are association lists in insertion
  order; \<^verbatim>\<open>d[k] = v\<close> is \<^const>\<open>AList.update\<close> and \<^verbatim>\<open>k in d\<close>, \<^verbatim>\<open>d[k]\<close> are
  \<^const>\<open>map_of\<close>.
\<close>

definition manual_fix :: "(string \<times> string) list" where
  "manual_fix = [(''Odisha'', ''Orissa'')]"

definition mismatches :: "string list \<Rightarrow> string list \<Rightarrow> string list" where
  "mismatches csv_states geojson_states = filter (\<lambda>s. s \<notin> set geojson_states) csv_states"

text \<open>The loop \<^verbatim>\<open>for state in mismatches\<close>, with \<^verbatim>\<open>state_fix_map\<close> as accumulator.\<close>

fun fix_loop :: "string list \<Rightarrow> string list \<Rightarrow> (string \<times> string) list \<Rightarrow> (string \<times> string) list" where
  "fix_loop geojson_states [] state_fix_map = state_fix_map"
| "fix_loop geojson_states (state # rest) state_fix_map =
     (case map_of manual_fix state of
        Some v \<Rightarrow> fix_loop geojson_states rest (AList.update state v state_fix_map)
      | None \<Rightarrow>
          (case get_close_matches state geojson_states of
             [] \<Rightarrow> fix_loop geojson_states rest state_fix_map
           | x # _ \<Rightarrow> fix_loop geojson_states rest (AList.update state x state_fix_map)))"

definition state_fix_map :: "string list \<Rightarrow> string list \<Rightarrow> (string \<times> string) list" where
  "state_fix_map geojson_states csv_states =
     fix_loop geojson_states (mismatches csv_states geojson_states) []"

text \<open>
  \<^verbatim>\<open>Series.replace(dict)\<close>: every value that is a key of the dictionary becomes the value
  stored under it; the keys are looked up in the original column, so a replaced value is not
  replaced again.
\<close>

definition replace_values :: "(string \<times> string) list \<Rightarrow> string list \<Rightarrow> string list" where
  "replace_values m col = map (\<lambda>v. case map_of m v of None \<Rightarrow> v | Some t \<Rightarrow> t) col"

text \<open>
  The whole pass on the \<^verbatim>\<open>State\<close> column: \<^verbatim>\<open>set(df["State"].unique())\<close>, the mapping,
  and \<^verbatim>\<open>if state_fix_map: df["State"] = df["State"].replace(state_fix_map)\<close>.
\<close>

definition reconcile_states :: "string list \<Rightarrow> string list \<Rightarrow> string list" where
  "reconcile_states geojson_states col =
     (let m = state_fix_map geojson_states (remdups col)
      in if m \<noteq> [] then replace_values m col else col)"

section \<open>Properties of the reconciler\<close>

text \<open>What one round of the loop stores for a mismatched name.\<close>

definition fix_target :: "string list \<Rightarrow> string \<Rightarrow> string option" where
  "fix_target geojson_states state =
     (case map_of manual_fix state of
        Some v \<Rightarrow> Some v
      | None \<Rightarrow> (case get_close_matches state geojson_states of [] \<Rightarrow> None | x # _ \<Rightarrow> Some x))"

lemma map_of_fix_loop:
  "map_of (fix_loop geo ms m) s =
     (if s \<in> set ms \<and> fix_target geo s \<noteq> None then fix_target geo s else map_of m s)"
proof (induction ms arbitrary: m)
  case Nil
  show ?case by simp
next
  case (Cons x ms)
  show ?case
  proof (cases "map_of manual_fix x")
    case (Some v)
    then have "fix_target geo x = Some v" by (simp add: fix_target_def)
    with Some Cons[of "AList.update x v m"] show ?thesis
      by (auto simp: update_conv')
  next
    case None
    show ?thesis
    proof (cases "get_close_matches x geo")
      case Nil
      with None have "fix_target geo x = None" by (simp add: fix_target_def)
      with None Nil Cons[of m] show ?thesis by auto
    next
      case (Cons y ys)
      with None have "fix_target geo x = Some y" by (simp add: fix_target_def)
      with None Cons Cons.IH[of "AList.update x y m"] show ?thesis
        by (auto simp: update_conv')
    qed
  qed
qed

lemma map_of_state_fix_map:
  "map_of (state_fix_map geo csv) s =
     (if s \<in> set csv \<and> s \<notin> set geo then fix_target geo s else None)"
  by (auto simp: state_fix_map_def map_of_fix_loop mismatches_def)

lemma reconcile_states_nth:
  assumes "i < length col"
  shows "reconcile_states geo col ! i =
           (case map_of (state_fix_map geo (remdups col)) (col ! i) of
              None \<Rightarrow> col ! i | Some t \<Rightarrow> t)"
proof (cases "state_fix_map geo (remdups col) = []")
  case True
  then show ?thesis by (simp add: reconcile_states_def)
next
  case False
  with assms show ?thesis by (simp add: reconcile_states_def replace_values_def)
qed

lemma length_reconcile_states [simp]: "length (reconcile_states geo col) = length col"
  by (simp add: reconcile_states_def replace_values_def Let_def)

text \<open>
  C3. A state name that is verbatim in the canonical set is never a key of the rename
  mapping, and the reconciliation pass leaves every occurrence of it in the column as it is.
\<close>

theorem canonical_name_unaltered:
  assumes "s \<in> set geojson_states"
  shows "map_of (state_fix_map geojson_states (remdups col)) s = None
       \<and> (\<forall>i < length col. col ! i = s \<longrightarrow> reconcile_states geojson_states col ! i = s)"
  using assms by (simp add: map_of_state_fix_map reconcile_states_nth)

theorem canonical_name_unaltered_witness:
  "''Kerala'' \<in> set [''Kerala'', ''Orissa'']
   \<and> map_of (state_fix_map [''Kerala'', ''Orissa''] (remdups [''Kerala'', ''Odisha'', ''Kerala''])) ''Kerala'' = None
   \<and> reconcile_states [''Kerala'', ''Orissa''] [''Kerala'', ''Odisha'', ''Kerala''] ! 0 = ''Kerala''
   \<and> reconcile_states [''Kerala'', ''Orissa''] [''Kerala'', ''Odisha'', ''Kerala''] ! 2 = ''Kerala''"
proof -
  have h: "''Kerala'' \<in> set [''Kerala'', ''Orissa'']" by simp
  from canonical_name_unaltered[OF h, of "[''Kerala'', ''Odisha'', ''Kerala'']"] h
  show ?thesis by simp
qed

lemma fix_target_in_geo:
  assumes "fix_target geo s = Some t" and "map_of manual_fix s = None"
  shows "t \<in> set geo"
proof -
  from assms obtain xs where "get_close_matches s geo = t # xs"
    by (auto simp: fix_target_def split: list.splits)
  from get_close_matches_Cons[OF this] show ?thesis by simp
qed

lemma fix_target_cong: "set geo = set geo' \<Longrightarrow> fix_target geo s = fix_target geo' s"
  using get_close_matches_cong[of geo geo' s] by (simp add: fix_target_def split: option.splits)

lemma map_of_eq_empty_iff': "map_of m = Map.empty \<longleftrightarrow> m = []"
  by (cases m) (auto simp: fun_eq_iff)

text \<open>
  C4 (as amended). A dataset state name that has an entry in the manual-override table and is
  not verbatim in the canonical set is mapped to its override value, whatever the canonical
  set is and hence whatever similarity scores it would have: the approximate matcher is not
  consulted for it. Every occurrence in the column is renamed to the override value.
\<close>

theorem manual_override_applied:
  assumes "map_of manual_fix s = Some t" and "s \<in> set col" and "s \<notin> set geojson_states"
  shows "map_of (state_fix_map geojson_states (remdups col)) s = Some t
       \<and> (\<forall>i < length col. col ! i = s \<longrightarrow> reconcile_states geojson_states col ! i = t)"
  using assms by (simp add: map_of_state_fix_map reconcile_states_nth fix_target_def)

theorem manual_override_applied_witness:
  "map_of manual_fix ''Odisha'' = Some ''Orissa''
   \<and> ''Odisha'' \<in> set [''Kerala'', ''Odisha'']
   \<and> ''Odisha'' \<notin> set [''Kerala'', ''Odisa'']
   \<and> map_of (state_fix_map [''Kerala'', ''Odisa''] (remdups [''Kerala'', ''Odisha''])) ''Odisha'' = Some ''Orissa''
   \<and> reconcile_states [''Kerala'', ''Odisa''] [''Kerala'', ''Odisha''] ! 1 = ''Orissa''"
proof -
  have h1: "map_of manual_fix ''Odisha'' = Some ''Orissa''" by (simp add: manual_fix_def)
  have h2: "''Odisha'' \<in> set [''Kerala'', ''Odisha'']" by simp
  have h3: "''Odisha'' \<notin> set [''Kerala'', ''Odisa'']" by simp
  from manual_override_applied[OF h1 h2 h3] h1 h2 h3 show ?thesis by simp
qed

text \<open>
  The claim without the restriction to mismatched names fails: when \<^verbatim>\<open>Odisha\<close> itself is a
  canonical name it is not in \<^verbatim>\<open>mismatches\<close>, the loop never sees it and it keeps its name.
\<close>

theorem manual_override_counterexample:
  "map_of manual_fix ''Odisha'' = Some ''Orissa''
   \<and> map_of (state_fix_map [''Odisha'', ''Kerala''] (remdups [''Odisha'', ''Kerala''])) ''Odisha'' = None
   \<and> reconcile_states [''Odisha'', ''Kerala''] [''Odisha'', ''Kerala''] = [''Odisha'', ''Kerala'']"
  by (simp add: manual_fix_def state_fix_map_def mismatches_def reconcile_states_def)

text \<open>
  What case-insensitive matching would compare: the names with their ASCII capitals turned
  into small letters, as Python's \<^verbatim>\<open>str.lower\<close> does on ASCII text. The script has no such
  step.
\<close>

definition ascii_lower :: "char \<Rightarrow> char" where
  "ascii_lower c =
     (if CHR ''A'' \<le> c \<and> c \<le> CHR ''Z'' then char_of (of_char c + (32::nat)) else c)"

text \<open>
  C5 (as amended). For a mismatched dataset name without a manual override the reconciler
  compares the name as it is written (characters are matched by equality, so case matters)
  with every canonical name. If some canonical name has a similarity of at least the cutoff
  \<open>0.6\<close>, the name is mapped to one of greatest similarity, which is a canonical name; if the
  similarity stays below the cutoff for all of them, the name has no entry in the mapping and
  stays as it is in the column.
\<close>

theorem fuzzy_match_rule:
  assumes "s \<in> set col" and "s \<notin> set geojson_states" and "map_of manual_fix s = None"
  shows "case map_of (state_fix_map geojson_states (remdups col)) s of
           None \<Rightarrow>
             (\<forall>y \<in> set geojson_states. ratio y s < cutoff)
             \<and> (\<forall>i < length col. col ! i = s \<longrightarrow> reconcile_states geojson_states col ! i = s)
         | Some x \<Rightarrow>
             x \<in> set geojson_states \<and> cutoff \<le> ratio x s
             \<and> (\<forall>y \<in> set geojson_states. ratio y s \<le> ratio x s)
             \<and> (\<forall>i < length col. col ! i = s \<longrightarrow> reconcile_states geojson_states col ! i = x)"
proof -
  have m: "map_of (state_fix_map geojson_states (remdups col)) s = fix_target geojson_states s"
    using assms(1,2) by (simp add: map_of_state_fix_map)
  show ?thesis
  proof (cases "get_close_matches s geojson_states")
    case Nil
    with assms(3) have "fix_target geojson_states s = None" by (simp add: fix_target_def)
    with m Nil show ?thesis
      by (simp add: reconcile_states_nth get_close_matches_Nil_iff[symmetric])
  next
    case (Cons x xs)
    with assms(3) have "fix_target geojson_states s = Some x" by (simp add: fix_target_def)
    with m get_close_matches_best(1,2,3)[OF Cons] show ?thesis
      by (simp add: reconcile_states_nth)
  qed
qed

theorem fuzzy_match_rule_witness:
  "map_of (state_fix_map [''Kerala'', ''Orissa''] (remdups [''Keral'', ''Zzz''])) ''Keral'' = Some ''Kerala''
   \<and> cutoff \<le> ratio ''Kerala'' ''Keral''
   \<and> ratio ''Orissa'' ''Keral'' \<le> ratio ''Kerala'' ''Keral''
   \<and> reconcile_states [''Kerala'', ''Orissa''] [''Keral'', ''Zzz''] ! 0 = ''Kerala''"
proof -
  have h1: "''Keral'' \<in> set [''Keral'', ''Zzz'']" by simp
  have h2: "''Keral'' \<notin> set [''Kerala'', ''Orissa'']" by simp
  have h3: "map_of manual_fix ''Keral'' = None" by (simp add: manual_fix_def)
  have e: "map_of (state_fix_map [''Kerala'', ''Orissa''] (remdups [''Keral'', ''Zzz''])) ''Keral''
             = Some ''Kerala''"
    by code_simp
  from fuzzy_match_rule[OF h1 h2 h3] e show ?thesis by simp
qed

text \<open>
  The claim as stated fails in two places. \<^verbatim>\<open>KERALA\<close> and \<^verbatim>\<open>Kerala\<close> are the same name
  up to case, yet their similarity is \<open>1/6\<close> and \<^verbatim>\<open>KERALA\<close> is left as it is. And
  \<^verbatim>\<open>abcde\<close> is renamed to \<^verbatim>\<open>abcxy\<close> although their similarity equals the cutoff and does
  not exceed it.
\<close>

theorem fuzzy_match_counterexample:
  "map ascii_lower ''KERALA'' = map ascii_lower ''Kerala''
   \<and> ratio ''Kerala'' ''KERALA'' = 1 / 6
   \<and> reconcile_states [''Kerala''] [''KERALA''] = [''KERALA'']
   \<and> ratio ''abcxy'' ''abcde'' = cutoff
   \<and> reconcile_states [''abcxy''] [''abcde''] = [''abcxy'']"
  by code_simp

text \<open>
  C10. Whenever the mapping sends a name without a manual override to a target, that target
  is a member of the canonical set. The manual override is stored without such a check: with
  the canonical set \<^verbatim>\<open>{Kerala}\<close>, \<^verbatim>\<open>Odisha\<close> is mapped to \<^verbatim>\<open>Orissa\<close>, which is not
  canonical.
\<close>

theorem fuzzy_target_canonical:
  "(\<forall>geojson_states csv_states s t.
      map_of (state_fix_map geojson_states csv_states) s = Some t \<and> map_of manual_fix s = None
        \<longrightarrow> t \<in> set geojson_states)
   \<and> map_of (state_fix_map [''Kerala''] [''Odisha'']) ''Odisha'' = Some ''Orissa''
   \<and> ''Orissa'' \<notin> set [''Kerala'']"
proof -
  have "t \<in> set geo" if "map_of (state_fix_map geo csv) s = Some t" "map_of manual_fix s = None"
    for geo csv s t
    using that fix_target_in_geo[of geo s t]
    by (auto simp: map_of_state_fix_map split: if_splits)
  moreover have "map_of (state_fix_map [''Kerala''] [''Odisha'']) ''Odisha'' = Some ''Orissa''"
    by (simp add: map_of_state_fix_map fix_target_def manual_fix_def)
  ultimately show ?thesis by auto
qed

theorem fuzzy_target_canonical_witness:
  "map_of (state_fix_map [''Kerala'', ''Orissa''] [''Keral'']) ''Keral'' = Some ''Kerala''
   \<and> map_of manual_fix ''Keral'' = None \<and> ''Kerala'' \<in> set [''Kerala'', ''Orissa'']"
proof -
  have h1: "map_of (state_fix_map [''Kerala'', ''Orissa''] [''Keral'']) ''Keral'' = Some ''Kerala''"
    by code_simp
  have h2: "map_of manual_fix ''Keral'' = None" by (simp add: manual_fix_def)
  from fuzzy_target_canonical h1 h2 show ?thesis by blast
qed


text \<open>The pass renames each value of the column on its own.\<close>

definition reconciled_name :: "string list \<Rightarrow> string \<Rightarrow> string" where
  "reconciled_name geo v =
     (if v \<in> set geo then v else case fix_target geo v of None \<Rightarrow> v | Some t \<Rightarrow> t)"

lemma reconcile_states_eq_map: "reconcile_states geo col = map (reconciled_name geo) col"
proof (rule nth_equalityI)
  show "length (reconcile_states geo col) = length (map (reconciled_name geo) col)" by simp
next
  fix i assume "i < length (reconcile_states geo col)"
  then have i: "i < length col" by simp
  then have "col ! i \<in> set col" by simp
  with i show "reconcile_states geo col ! i = map (reconciled_name geo) col ! i"
    by (simp add: reconcile_states_nth map_of_state_fix_map reconciled_name_def)
qed

lemma reconciled_name_fixpoint:
  assumes "v \<notin> set geo \<longrightarrow> (\<forall>t. map_of manual_fix v = Some t \<longrightarrow> t \<in> set geo)"
  shows "reconciled_name geo (reconciled_name geo v) = reconciled_name geo v"
proof (cases "v \<in> set geo")
  case True
  then show ?thesis by (simp add: reconciled_name_def)
next
  case False
  show ?thesis
  proof (cases "fix_target geo v")
    case None
    with False show ?thesis by (simp add: reconciled_name_def)
  next
    case (Some t)
    have "t \<in> set geo"
    proof (cases "map_of manual_fix v")
      case None
      from fix_target_in_geo[OF Some None] show ?thesis .
    next
      case (Some u)
      with \<open>fix_target geo v = Some t\<close> have "u = t" by (simp add: fix_target_def)
      with Some assms False show ?thesis by simp
    qed
    with False Some show ?thesis by (simp add: reconciled_name_def)
  qed
qed

text \<open>
  C6 (as amended). If every manual override that applies to the column (the name is in the
  column and not canonical) has a canonical target, a second reconciliation pass on the
  reconciled column changes nothing.
\<close>

theorem reconcile_idempotent:
  assumes "\<forall>s \<in> set col. s \<notin> set geojson_states \<longrightarrow>
             (\<forall>t. map_of manual_fix s = Some t \<longrightarrow> t \<in> set geojson_states)"
  shows "reconcile_states geojson_states (reconcile_states geojson_states col)
           = reconcile_states geojson_states col"
  using assms by (simp add: reconcile_states_eq_map reconciled_name_fixpoint)

theorem reconcile_idempotent_witness:
  "reconcile_states [''Orissa'', ''Kerala''] [''Odisha'', ''Keral'', ''Goa''] = [''Orissa'', ''Kerala'', ''Goa'']
   \<and> reconcile_states [''Orissa'', ''Kerala'']
         (reconcile_states [''Orissa'', ''Kerala''] [''Odisha'', ''Keral'', ''Goa''])
       = [''Orissa'', ''Kerala'', ''Goa'']"
proof -
  have h: "\<forall>s \<in> set [''Odisha'', ''Keral'', ''Goa'']. s \<notin> set [''Orissa'', ''Kerala''] \<longrightarrow>
      (\<forall>t. map_of manual_fix s = Some t \<longrightarrow> t \<in> set [''Orissa'', ''Kerala''])"
    by (simp add: manual_fix_def)
  have e: "reconcile_states [''Orissa'', ''Kerala''] [''Odisha'', ''Keral'', ''Goa''] = [''Orissa'', ''Kerala'', ''Goa'']"
    by code_simp
  from reconcile_idempotent[OF h] e show ?thesis by simp
qed

text \<open>
  Without that condition the second pass can rename again: with the canonical set
  \<^verbatim>\<open>{Orisa}\<close> the first pass turns \<^verbatim>\<open>Odisha\<close> into \<^verbatim>\<open>Orissa\<close> by the manual table, and
  the second pass turns \<^verbatim>\<open>Orissa\<close> into \<^verbatim>\<open>Orisa\<close> by approximate matching.
\<close>

theorem reconcile_idempotent_counterexample:
  "reconcile_states [''Orisa''] [''Odisha''] = [''Orissa'']
   \<and> reconcile_states [''Orisa''] (reconcile_states [''Orisa''] [''Odisha'']) = [''Orisa'']"
  by code_simp

text \<open>
  C9 (as amended). The mapping and the reconciled column depend only on the set of dataset
  names and the set of canonical names, not on the order in which either set is iterated.
  Among candidates with the same score the greatest name in string order is taken.
\<close>

theorem reconcile_deterministic:
  assumes "set geojson_states = set geojson_states'" and "set csv_states = set csv_states'"
  shows "map_of (state_fix_map geojson_states csv_states)
           = map_of (state_fix_map geojson_states' csv_states')
       \<and> reconcile_states geojson_states col = reconcile_states geojson_states' col
       \<and> (\<forall>s x. get_close_matches s geojson_states = [x] \<longrightarrow>
            (\<forall>y \<in> set geojson_states. ratio y s = ratio x s \<longrightarrow> y \<le> x))"
proof -
  have 1: "map_of (state_fix_map geojson_states csv_states)
           = map_of (state_fix_map geojson_states' csv_states')"
    using assms fix_target_cong[OF assms(1)] by (auto simp: fun_eq_iff map_of_state_fix_map)
  have "reconciled_name geojson_states = reconciled_name geojson_states'"
    using assms(1) fix_target_cong[OF assms(1)] by (auto simp: fun_eq_iff reconciled_name_def)
  then have 2: "reconcile_states geojson_states col = reconcile_states geojson_states' col"
    by (simp add: reconcile_states_eq_map)
  have 3: "y \<le> x" if "get_close_matches s geojson_states = [x]" "y \<in> set geojson_states"
    "ratio y s = ratio x s" for s x y
    using get_close_matches_best(4)[OF that(1)] that(2,3) by blast
  from 1 2 3 show ?thesis by blast
qed

theorem reconcile_deterministic_witness:
  "set [''Kerala'', ''Orissa''] = set [''Orissa'', ''Kerala'']
   \<and> set [''Keral'', ''Odisha''] = set [''Odisha'', ''Keral'', ''Odisha'']
   \<and> map_of (state_fix_map [''Kerala'', ''Orissa''] [''Keral'', ''Odisha''])
       = map_of (state_fix_map [''Orissa'', ''Kerala''] [''Odisha'', ''Keral'', ''Odisha''])
   \<and> reconcile_states [''Kerala'', ''Orissa''] [''Keral''] = reconcile_states [''Orissa'', ''Kerala''] [''Keral'']"
proof -
  have h1: "set [''Kerala'', ''Orissa''] = set [''Orissa'', ''Kerala'']" by auto
  have h2: "set [''Keral'', ''Odisha''] = set [''Odisha'', ''Keral'', ''Odisha'']" by auto
  from reconcile_deterministic[OF h1 h2, of "[''Keral'']"] h1 h2 show ?thesis by blast
qed

text \<open>
  Ties are not broken by iteration order: \<^verbatim>\<open>Goax\<close> and \<^verbatim>\<open>Goay\<close> score the same against
  \<^verbatim>\<open>Goa\<close>, \<^verbatim>\<open>Goax\<close> comes first, and \<^verbatim>\<open>Goay\<close> is chosen.
\<close>

theorem tie_break_counterexample:
  "ratio ''Goax'' ''Goa'' = ratio ''Goay'' ''Goa''
   \<and> cutoff \<le> ratio ''Goax'' ''Goa''
   \<and> state_fix_map [''Goax'', ''Goay''] [''Goa''] = [(''Goa'', ''Goay'')]"
  by code_simp



section \<open>The dataset\<close>

text \<open>
  \<^verbatim>\<open>pd.read_csv\<close> gives a table of named columns. A cell holds text, a number or the
  missing value \<^verbatim>\<open>NaN\<close>; the infinities are what pandas yields when a float is divided by
  zero. Numbers are the rationals with the same value (rounding is not modelled). A frame is
  the list of its columns in order, each with its name; \<^verbatim>\<open>read_csv\<close> gives all columns
  the same length.
\<close>

datatype cell = Num rat | Str string | NaN | PosInf | NegInf

type_synonym column = "cell list"

type_synonym frame = "(string \<times> column) list"

datatype py_error = KeyError string | TypeError | ValueError | NameError string

definition wf_frame :: "frame \<Rightarrow> bool" where
  "wf_frame df \<longleftrightarrow> (\<forall>c \<in> set df. \<forall>d \<in> set df. length (snd c) = length (snd d))"

text \<open>\<^verbatim>\<open>df[c]\<close> raises \<^verbatim>\<open>KeyError\<close> when there is no such column.\<close>

definition get_col :: "frame \<Rightarrow> string \<Rightarrow> py_error + column" where
  "get_col df c = (case map_of df c of None \<Rightarrow> Inl (KeyError c) | Some col \<Rightarrow> Inr col)"

text \<open>\<^verbatim>\<open>df[mask]\<close>: the rows where the boolean mask holds, in every column.\<close>

definition select_rows :: "frame \<Rightarrow> bool list \<Rightarrow> frame" where
  "select_rows df keep = map (\<lambda>(c, col). (c, map fst (filter snd (zip col keep)))) df"

text \<open>
  \<^verbatim>\<open>df[c] = col\<close>: an existing column is replaced where it stands, a new one is added at
  the end.
\<close>

definition set_col :: "frame \<Rightarrow> string \<Rightarrow> column \<Rightarrow> frame" where
  "set_col df c col = AList.update c col df"

text \<open>Line 34--35: keep the rows whose \<^verbatim>\<open>Growth_status\<close> is one of the four categories.\<close>

definition mal_types :: "string list" where
  "mal_types = [''Stunted'', ''Wasted'', ''Underweight'']"

definition isin :: "column \<Rightarrow> string list \<Rightarrow> bool list" where
  "isin col values = map (\<lambda>v. v \<in> Str ` set values) col"

definition filter_growth :: "frame \<Rightarrow> py_error + frame" where
  "filter_growth df =
     (case get_col df ''Growth_status'' of
        Inl e \<Rightarrow> Inl e
      | Inr col \<Rightarrow> Inr (select_rows df (isin col (mal_types @ [''Normal'']))))"

text \<open>
  Lines 46--58 on the frame. \<^verbatim>\<open>difflib\<close> iterates over the name it is given, so a
  \<^verbatim>\<open>State\<close> cell that is not text (it is never in \<^verbatim>\<open>geojson_states\<close> nor in
  \<^verbatim>\<open>manual_fix\<close>) makes \<^verbatim>\<open>get_close_matches\<close> raise \<^verbatim>\<open>TypeError\<close>.
\<close>

fun as_strings :: "column \<Rightarrow> string list option" where
  "as_strings [] = Some []"
| "as_strings (Str s # rest) = map_option ((#) s) (as_strings rest)"
| "as_strings (_ # rest) = None"

definition reconcile :: "string list \<Rightarrow> frame \<Rightarrow> py_error + frame" where
  "reconcile geojson_states df =
     (case get_col df ''State'' of
        Inl e \<Rightarrow> Inl e
      | Inr col \<Rightarrow>
          (case as_strings col of
             None \<Rightarrow> Inl TypeError
           | Some names \<Rightarrow>
               (let m = state_fix_map geojson_states (remdups names)
                in if m \<noteq> [] then Inr (set_col df ''State'' (map Str (replace_values m names)))
                   else Inr df)))"

definition prepare :: "string list \<Rightarrow> frame \<Rightarrow> py_error + frame" where
  "prepare geojson_states raw =
     (case filter_growth raw of Inl e \<Rightarrow> Inl e | Inr df \<Rightarrow> reconcile geojson_states df)"

section \<open>The aggregator (tab 1, lines 75--98)\<close>

text \<open>
  \<^verbatim>\<open>groupby(keys).size().reset_index(name=...)\<close>: one row per combination of key values
  that occurs, with the number of rows that have it. Rows with a missing key are dropped
  (\<^verbatim>\<open>dropna=True\<close>) and the groups come in sorted order (\<^verbatim>\<open>sort=True\<close>: numbers by value,
  text in string order, numbers before text).
\<close>

definition sort_rank :: "cell \<Rightarrow> nat \<times> rat \<times> string" where
  "sort_rank c = (case c of NegInf \<Rightarrow> (0, 0, []) | Num q \<Rightarrow> (1, q, []) | PosInf \<Rightarrow> (2, 0, [])
                  | Str s \<Rightarrow> (3, 0, s) | NaN \<Rightarrow> (4, 0, []))"

definition groupby_size :: "column \<Rightarrow> (cell \<times> nat) list" where
  "groupby_size keys =
     (let present = filter (\<lambda>k. k \<noteq> NaN) keys
      in map (\<lambda>k. (k, count_list present k)) (sort_key sort_rank (remdups present)))"

definition groupby2_size :: "column \<Rightarrow> column \<Rightarrow> (cell \<times> cell \<times> nat) list" where
  "groupby2_size keys1 keys2 =
     (let present = filter (\<lambda>(k, g). k \<noteq> NaN \<and> g \<noteq> NaN) (zip keys1 keys2)
      in map (\<lambda>(k, g). (k, g, count_list present (k, g)))
           (sort_key (\<lambda>(k, g). (sort_rank k, sort_rank g)) (remdups present)))"

text \<open>\<^verbatim>\<open>agg.merge(total, on=level)\<close>: the inner join, in the order of the left table.\<close>

definition merge_on_level ::
  "(cell \<times> cell \<times> nat) list \<Rightarrow> (cell \<times> nat) list \<Rightarrow> (cell \<times> cell \<times> nat \<times> nat) list" where
  "merge_on_level agg totals =
     concat (map (\<lambda>(k, g, c). map (\<lambda>(k', t). (k, g, c, t)) (filter (\<lambda>(k', t). k' = k) totals)) agg)"

text \<open>
  A row of \<^verbatim>\<open>agg\<close> after line 79. \<^verbatim>\<open>100 * count / total\<close> is a float division in pandas,
  which does not raise on a zero divisor.
\<close>

record agg_row =
  agg_level :: cell
  agg_growth_status :: cell
  agg_count :: nat
  agg_total :: nat
  agg_percentage :: rat

definition with_percentage :: "cell \<times> cell \<times> nat \<times> nat \<Rightarrow> agg_row" where
  "with_percentage r =
     (case r of (k, g, c, t) \<Rightarrow>
        \<lparr>agg_level = k, agg_growth_status = g, agg_count = c, agg_total = t,
         agg_percentage = 100 * of_nat c / of_nat t\<rparr>)"

definition aggregate :: "column \<Rightarrow> column \<Rightarrow> agg_row list" where
  "aggregate level_col status_col =
     map with_percentage (merge_on_level (groupby2_size level_col status_col) (groupby_size level_col))"

datatype level = State | District

definition level_name :: "level \<Rightarrow> string" where
  "level_name l = (case l of State \<Rightarrow> ''State'' | District \<Rightarrow> ''District'')"

text \<open>Lines 75--79 on the frame: the table \<^verbatim>\<open>agg\<close>.\<close>

definition tab1_agg :: "level \<Rightarrow> frame \<Rightarrow> py_error + agg_row list" where
  "tab1_agg l df =
     (case get_col df (level_name l) of
        Inl e \<Rightarrow> Inl e
      | Inr level_col \<Rightarrow>
          (case get_col df ''Growth_status'' of
             Inl e \<Rightarrow> Inl e
           | Inr status_col \<Rightarrow> Inr (aggregate level_col status_col)))"


text \<open>Line 77 on the frame: the table \<^verbatim>\<open>total\<close>.\<close>

definition tab1_total :: "level \<Rightarrow> frame \<Rightarrow> py_error + (cell \<times> nat) list" where
  "tab1_total l df =
     (case get_col df (level_name l) of
        Inl e \<Rightarrow> Inl e
      | Inr level_col \<Rightarrow> Inr (groupby_size level_col))"

section \<open>Properties of the aggregator\<close>

text \<open>
  The rows that take part in the grouping, the groups in their sorted order, and the row of
  \<^verbatim>\<open>agg\<close> that each group gets.
\<close>

definition present :: "column \<Rightarrow> column" where
  "present keys = filter (\<lambda>k. k \<noteq> NaN) keys"

definition present2 :: "column \<Rightarrow> column \<Rightarrow> (cell \<times> cell) list" where
  "present2 keys1 keys2 = filter (\<lambda>(k, g). k \<noteq> NaN \<and> g \<noteq> NaN) (zip keys1 keys2)"

definition groups2 :: "column \<Rightarrow> column \<Rightarrow> (cell \<times> cell) list" where
  "groups2 keys1 keys2 =
     sort_key (\<lambda>(k, g). (sort_rank k, sort_rank g)) (remdups (present2 keys1 keys2))"

definition agg_row_of :: "column \<Rightarrow> column \<Rightarrow> cell \<times> cell \<Rightarrow> agg_row" where
  "agg_row_of ks gs p =
     \<lparr>agg_level = fst p, agg_growth_status = snd p,
      agg_count = count_list (present2 ks gs) p,
      agg_total = count_list (present ks) (fst p),
      agg_percentage = 100 * of_nat (count_list (present2 ks gs) p)
                         / of_nat (count_list (present ks) (fst p))\<rparr>"

lemma groups2_props [simp]:
  "distinct (groups2 ks gs)" "set (groups2 ks gs) = set (present2 ks gs)"
  by (simp_all add: groups2_def)

lemma present2_fst: "p \<in> set (present2 ks gs) \<Longrightarrow> fst p \<in> set (present ks)"
  by (auto simp: present2_def present_def dest: set_zip_leftD)

lemma filter_key_distinct:
  "distinct D \<Longrightarrow> k \<in> set D \<Longrightarrow>
     filter (\<lambda>(k', t). k' = k) (map (\<lambda>k. (k, f k)) D) = [(k, f k)]"
proof (induction D)
  case Nil
  then show ?case by simp
next
  case (Cons x D)
  show ?case
  proof (cases "x = k")
    case True
    with Cons.prems have "k \<notin> set D" by simp
    then have "filter (\<lambda>(k', t). k' = k) (map (\<lambda>k. (k, f k)) D) = []"
      by (auto simp: filter_empty_conv)
    with True show ?thesis by simp
  next
    case False
    with Cons show ?thesis by simp
  qed
qed

lemma groupby_size_lookup:
  assumes "k \<in> set (present ks)"
  shows "filter (\<lambda>(k', t). k' = k) (groupby_size ks) = [(k, count_list (present ks) k)]"
proof -
  have "groupby_size ks
          = map (\<lambda>k. (k, count_list (present ks) k)) (sort_key sort_rank (remdups (present ks)))"
    by (simp add: groupby_size_def present_def Let_def)
  moreover have "distinct (sort_key sort_rank (remdups (present ks)))"
    and "k \<in> set (sort_key sort_rank (remdups (present ks)))"
    using assms by simp_all
  ultimately show ?thesis by (simp only: filter_key_distinct)
qed

lemma aggregate_eq: "aggregate ks gs = map (agg_row_of ks gs) (groups2 ks gs)"
proof -
  have g2: "groupby2_size ks gs
              = map (\<lambda>p. (fst p, snd p, count_list (present2 ks gs) p)) (groups2 ks gs)"
    by (simp add: groupby2_size_def groups2_def present2_def case_prod_unfold Let_def)
  have "merge_on_level (groupby2_size ks gs) (groupby_size ks)
          = concat (map (\<lambda>p. [(fst p, snd p, count_list (present2 ks gs) p,
                                 count_list (present ks) (fst p))]) (groups2 ks gs))"
    unfolding merge_on_level_def g2 map_map
  proof (rule arg_cong[where f = concat], rule map_cong[OF refl])
    fix p assume "p \<in> set (groups2 ks gs)"
    then have "fst p \<in> set (present ks)" by (simp add: present2_fst)
    from groupby_size_lookup[OF this]
    show "((\<lambda>(k, g, c). map (\<lambda>(k', t). (k, g, c, t)) (filter (\<lambda>(k', t). k' = k) (groupby_size ks)))
             \<circ> (\<lambda>p. (fst p, snd p, count_list (present2 ks gs) p))) p
          = [(fst p, snd p, count_list (present2 ks gs) p, count_list (present ks) (fst p))]"
      by simp
  qed
  also have "\<dots> = map (\<lambda>p. (fst p, snd p, count_list (present2 ks gs) p,
                                 count_list (present ks) (fst p))) (groups2 ks gs)"
    by (induction "groups2 ks gs") simp_all
  finally show ?thesis
    by (simp add: aggregate_def with_percentage_def agg_row_of_def comp_def)
qed

lemma count_list_filter: "Q p \<Longrightarrow> count_list (filter Q P) p = count_list P p"
  by (induction P) auto

lemma sum_count_distinct:
  assumes "distinct D" and "set D = set P"
  shows "sum_list (map (count_list P) (filter Q D)) = length (filter Q P)"
proof -
  have "sum_list (map (count_list P) (filter Q D)) = sum (count_list P) (set (filter Q D))"
    using assms(1) by (simp add: sum_list_distinct_conv_sum_set)
  also have "\<dots> = sum (count_list (filter Q P)) (set (filter Q P))"
    using assms(2) by (intro sum.cong) (auto simp: count_list_filter)
  also have "\<dots> = length (filter Q P)"
    by (rule sum_count_set) simp_all
  finally show ?thesis .
qed

lemma group_counts:
  "sum_list (map agg_count (filter (\<lambda>r. agg_level r = k) (aggregate ks gs)))
     = length (filter (\<lambda>p. fst p = k) (present2 ks gs))"
proof -
  have "map agg_count (filter (\<lambda>r. agg_level r = k) (aggregate ks gs))
          = map (count_list (present2 ks gs)) (filter (\<lambda>p. fst p = k) (groups2 ks gs))"
    by (simp add: aggregate_eq filter_map comp_def agg_row_of_def)
  then show ?thesis by (simp add: sum_count_distinct)
qed

lemma present2_total:
  assumes "length ks = length gs" and "NaN \<notin> set gs"
  shows "length (filter (\<lambda>p. fst p = k) (present2 ks gs)) = count_list (present ks) k"
proof -
  have "present2 ks gs = filter (\<lambda>p. fst p \<noteq> NaN) (zip ks gs)"
    unfolding present2_def using assms(2)
    by (intro filter_cong) (auto dest: set_zip_rightD)
  moreover have "present ks = filter (\<lambda>k. k \<noteq> NaN) (map fst (zip ks gs))"
    using assms(1) by (simp add: present_def)
  ultimately have "map fst (present2 ks gs) = present ks"
    by (simp add: filter_map comp_def)
  then have "count_list (present ks) k = length (filter ((=) k) (map fst (present2 ks gs)))"
    by (simp add: count_list_eq_length_filter)
  also have "\<dots> = length (filter (\<lambda>p. fst p = k) (present2 ks gs))"
    by (simp add: comp_def eq_commute)
  finally show ?thesis by simp
qed


subsection \<open>The frame after the filter and the rename pass\<close>

text \<open>
  Row selection and column assignment keep all columns equally long, and after the initial
  filter no \<^verbatim>\<open>Growth_status\<close> is missing; the rename pass does not touch that column.
\<close>

lemma get_col_mem: "get_col df c = Inr col \<Longrightarrow> (c, col) \<in> set df"
  by (auto simp: get_col_def split: option.splits dest: map_of_SomeD)

lemma wf_frame_lengths:
  assumes "wf_frame df" and "get_col df c = Inr x" and "get_col df d = Inr y"
  shows "length x = length y"
proof -
  have "(c, x) \<in> set df" "(d, y) \<in> set df"
    by (rule get_col_mem[OF assms(2)], rule get_col_mem[OF assms(3)])
  with assms(1) have "length (snd (c, x)) = length (snd (d, y))"
    unfolding wf_frame_def by blast
  then show ?thesis by simp
qed

lemma select_self: "map fst (filter snd (zip xs (map P xs))) = filter P xs"
  by (induction xs) simp_all

lemma select_length:
  "length x = length y \<Longrightarrow> length (filter snd (zip x keep)) = length (filter snd (zip y keep))"
proof (induction x y arbitrary: keep rule: list_induct2)
  case Nil
  then show ?case by simp
next
  case (Cons a x b y)
  then show ?case by (cases keep) simp_all
qed

lemma map_of_select_rows:
  "map_of (select_rows df keep) c
     = map_option (\<lambda>col. map fst (filter snd (zip col keep))) (map_of df c)"
  by (simp add: select_rows_def map_of_map)

lemma get_col_select_rows:
  "get_col (select_rows df keep) c = Inr col \<longleftrightarrow>
     (\<exists>col0. get_col df c = Inr col0 \<and> col = map fst (filter snd (zip col0 keep)))"
proof (cases "map_of df c")
  case None
  then show ?thesis by (simp add: get_col_def map_of_select_rows)
next
  case (Some a)
  then show ?thesis by (auto simp: get_col_def map_of_select_rows)
qed

lemma wf_select_rows:
  assumes "wf_frame df"
  shows "wf_frame (select_rows df keep)"
  unfolding wf_frame_def
proof (intro ballI)
  fix c d assume "c \<in> set (select_rows df keep)" "d \<in> set (select_rows df keep)"
  then obtain c0 d0 where c0: "c0 \<in> set df" "snd c = map fst (filter snd (zip (snd c0) keep))"
    and d0: "d0 \<in> set df" "snd d = map fst (filter snd (zip (snd d0) keep))"
    unfolding select_rows_def by (auto simp: case_prod_unfold)
  from assms c0(1) d0(1) have "length (snd c0) = length (snd d0)"
    unfolding wf_frame_def by blast
  from select_length[OF this, of keep] c0(2) d0(2)
  show "length (snd c) = length (snd d)" by simp
qed

lemma set_update_subset: "set (AList.update k v al) \<subseteq> insert (k, v) (set al)"
  by (induction al) auto

lemma wf_set_col:
  assumes "wf_frame df" and "get_col df c = Inr old" and "length new = length old"
  shows "wf_frame (set_col df c new)"
proof -
  have old: "(c, old) \<in> set df" by (rule get_col_mem[OF assms(2)])
  have 1: "length (snd x) = length old" if "x \<in> set df" for x
  proof -
    from assms(1) that old have "length (snd x) = length (snd (c, old))"
      unfolding wf_frame_def by blast
    then show ?thesis by simp
  qed
  have 2: "length (snd x) = length old" if "x \<in> set (set_col df c new)" for x
  proof -
    from that set_update_subset[of c new df] have "x = (c, new) \<or> x \<in> set df"
      unfolding set_col_def by blast
    with 1[of x] assms(3) show ?thesis by auto
  qed
  show ?thesis unfolding wf_frame_def by (simp add: 2)
qed

lemma get_col_set_col:
  "get_col (set_col df c new) d = (if d = c then Inr new else get_col df d)"
  by (simp add: get_col_def set_col_def update_conv')

lemma length_as_strings: "as_strings col = Some names \<Longrightarrow> length names = length col"
proof (induction col arbitrary: names rule: as_strings.induct)
qed auto

definition clean :: "frame \<Rightarrow> bool" where
  "clean df \<longleftrightarrow> wf_frame df \<and> (\<forall>gs. get_col df ''Growth_status'' = Inr gs \<longrightarrow> NaN \<notin> set gs)"

lemma filter_growth_clean:
  assumes "wf_frame raw" and "filter_growth raw = Inr df"
  shows "clean df"
proof -
  from assms(2) obtain col where col: "get_col raw ''Growth_status'' = Inr col"
    and df: "df = select_rows raw (isin col (mal_types @ [''Normal'']))"
    by (auto simp: filter_growth_def split: sum.splits)
  have "NaN \<notin> set gs" if "get_col df ''Growth_status'' = Inr gs" for gs
  proof -
    from that col df have "gs = filter (\<lambda>v. v \<in> Str ` set (mal_types @ [''Normal''])) col"
      by (simp add: get_col_select_rows isin_def select_self)
    then show ?thesis by auto
  qed
  with assms(1) df show ?thesis by (simp add: clean_def wf_select_rows)
qed

lemma reconcile_clean:
  assumes "clean df" and "reconcile geo df = Inr df'"
  shows "clean df'"
proof -
  from assms(2) obtain col names where col: "get_col df ''State'' = Inr col"
    and names: "as_strings col = Some names"
    and df': "df' = df \<or> df' = set_col df ''State''
                 (map Str (replace_values (state_fix_map geo (remdups names)) names))"
    by (auto simp: reconcile_def Let_def split: sum.splits option.splits if_splits)
  from df' show ?thesis
  proof
    assume "df' = df"
    with assms(1) show ?thesis by simp
  next
    assume *: "df' = set_col df ''State''
                 (map Str (replace_values (state_fix_map geo (remdups names)) names))"
    have "length (map Str (replace_values (state_fix_map geo (remdups names)) names)) = length col"
      using length_as_strings[OF names] by (simp add: replace_values_def)
    from wf_set_col[OF _ col this] assms(1) * have "wf_frame df'" by (simp add: clean_def)
    moreover have "get_col df' ''Growth_status'' = get_col df ''Growth_status''"
      using * by (simp add: get_col_set_col)
    ultimately show ?thesis using assms(1) by (simp add: clean_def)
  qed
qed

lemma prepare_clean:
  assumes "wf_frame raw" and "prepare geo raw = Inr df"
  shows "clean df"
proof -
  from assms(2) obtain df0 where "filter_growth raw = Inr df0" "reconcile geo df0 = Inr df"
    by (auto simp: prepare_def split: sum.splits)
  with assms(1) show ?thesis by (blast intro: filter_growth_clean reconcile_clean)
qed

lemma tab1_cols:
  assumes "clean df" and "tab1_agg l df = Inr agg"
  obtains ks gs where "get_col df (level_name l) = Inr ks" "get_col df ''Growth_status'' = Inr gs"
    "agg = aggregate ks gs" "length ks = length gs" "NaN \<notin> set gs"
proof -
  from assms(2) obtain ks gs where *: "get_col df (level_name l) = Inr ks"
    "get_col df ''Growth_status'' = Inr gs" "agg = aggregate ks gs"
    by (auto simp: tab1_agg_def split: sum.splits)
  moreover from assms(1) * have "length ks = length gs" "NaN \<notin> set gs"
    by (auto simp: clean_def dest: wf_frame_lengths)
  ultimately show ?thesis using that by blast
qed


text \<open>
  On the frame the rename pass is \<^const>\<open>reconcile_states\<close> applied to the \<^verbatim>\<open>State\<close> column;
  the other columns stay as they are.
\<close>

lemma as_strings_Some: "as_strings col = Some names \<Longrightarrow> col = map Str names"
proof (induction col arbitrary: names rule: as_strings.induct)
qed auto

lemma reconcile_State_column:
  assumes "get_col df ''State'' = Inr col" and "as_strings col = Some names"
  shows "\<exists>df'. reconcile geojson_states df = Inr df'
           \<and> get_col df' ''State'' = Inr (map Str (reconcile_states geojson_states names))
           \<and> (\<forall>c. c \<noteq> ''State'' \<longrightarrow> get_col df' c = get_col df c)"
proof (cases "state_fix_map geojson_states (remdups names) = []")
  case True
  with assms have "reconcile geojson_states df = Inr df"
    by (simp add: reconcile_def)
  moreover from True assms have "get_col df ''State'' = Inr (map Str (reconcile_states geojson_states names))"
    by (simp add: reconcile_states_def as_strings_Some)
  ultimately show ?thesis by blast
next
  case False
  with assms have "reconcile geojson_states df
      = Inr (set_col df ''State'' (map Str (reconcile_states geojson_states names)))"
    by (simp add: reconcile_def reconcile_states_def)
  then show ?thesis by (simp add: get_col_set_col)
qed

text \<open>
  A small run, used to instantiate the theorems below: four raw rows, one of them without a
  growth status; \<^verbatim>\<open>Odisha\<close> is renamed by the manual table.
\<close>

lemma example_wf:
  "wf_frame
     [(''State'', [Str ''Odisha'', Str ''Kerala'', Str ''Odisha'', Str ''Goa'']),
      (''District'', [Str ''Puri'', NaN, Str ''Puri'', Str ''Panaji'']),
      (''Growth_status'', [Str ''Stunted'', Str ''Normal'', Str ''Wasted'', NaN])]"
  by (simp add: wf_frame_def)

lemma example_prepare:
  "prepare [''Orissa'', ''Kerala'']
     [(''State'', [Str ''Odisha'', Str ''Kerala'', Str ''Odisha'', Str ''Goa'']),
      (''District'', [Str ''Puri'', NaN, Str ''Puri'', Str ''Panaji'']),
      (''Growth_status'', [Str ''Stunted'', Str ''Normal'', Str ''Wasted'', NaN])]
   = Inr
     [(''State'', [Str ''Orissa'', Str ''Kerala'', Str ''Orissa'']),
      (''District'', [Str ''Puri'', NaN, Str ''Puri'']),
      (''Growth_status'', [Str ''Stunted'', Str ''Normal'', Str ''Wasted''])]"
  by code_simp

lemma example_agg:
  "tab1_agg State
     [(''State'', [Str ''Orissa'', Str ''Kerala'', Str ''Orissa'']),
      (''District'', [Str ''Puri'', NaN, Str ''Puri'']),
      (''Growth_status'', [Str ''Stunted'', Str ''Normal'', Str ''Wasted''])]
   = Inr
      [\<lparr>agg_level = Str ''Kerala'', agg_growth_status = Str ''Normal'',
         agg_count = 1, agg_total = 1, agg_percentage = 100\<rparr>,
       \<lparr>agg_level = Str ''Orissa'', agg_growth_status = Str ''Stunted'',
         agg_count = 1, agg_total = 2, agg_percentage = 50\<rparr>,
       \<lparr>agg_level = Str ''Orissa'', agg_growth_status = Str ''Wasted'',
         agg_count = 1, agg_total = 2, agg_percentage = 50\<rparr>]"
  by code_simp

lemma example_total:
  "tab1_total State
     [(''State'', [Str ''Orissa'', Str ''Kerala'', Str ''Orissa'']),
      (''District'', [Str ''Puri'', NaN, Str ''Puri'']),
      (''Growth_status'', [Str ''Stunted'', Str ''Normal'', Str ''Wasted''])]
   = Inr [(Str ''Kerala'', 1), (Str ''Orissa'', 2)]"
  by code_simp

subsection \<open>Counts, totals and percentages\<close>

text \<open>
  C1. For either level and every group \<open>k\<close> of the table \<^verbatim>\<open>total\<close> (line 77), the counts
  of the rows of \<^verbatim>\<open>agg\<close> that belong to \<open>k\<close>, summed over the growth-status categories,
  equal the total of \<open>k\<close>, which is also the \<^verbatim>\<open>total\<close> that the merge writes into each of
  these rows. The frame is the dataset after the initial filter and the rename pass.
\<close>

theorem group_counts_sum_to_total:
  assumes "wf_frame raw" and "prepare geojson_states raw = Inr df"
    and "tab1_agg l df = Inr agg" and "tab1_total l df = Inr totals"
    and "(k, t) \<in> set totals"
  shows "sum_list (map agg_count (filter (\<lambda>r. agg_level r = k) agg)) = t
       \<and> (\<forall>r \<in> set agg. agg_level r = k \<longrightarrow> agg_total r = t)"
proof -
  from prepare_clean[OF assms(1,2)] have "clean df" .
  from tab1_cols[OF this assms(3)] obtain ks gs where
    ks: "get_col df (level_name l) = Inr ks" and agg: "agg = aggregate ks gs"
    and len: "length ks = length gs" and nan: "NaN \<notin> set gs"
    by blast
  from assms(4) ks have "totals = groupby_size ks" by (simp add: tab1_total_def)
  with assms(5) have t: "t = count_list (present ks) k"
    by (auto simp: groupby_size_def present_def Let_def)
  have "sum_list (map agg_count (filter (\<lambda>r. agg_level r = k) agg)) = t"
    unfolding agg t group_counts by (rule present2_total[OF len nan])
  moreover have "\<forall>r \<in> set agg. agg_level r = k \<longrightarrow> agg_total r = t"
    unfolding agg t aggregate_eq by (auto simp: agg_row_of_def)
  ultimately show ?thesis by simp
qed



theorem group_counts_sum_to_total_witness:
  "sum_list (map agg_count (filter (\<lambda>r. agg_level r = Str ''Orissa'')
      [\<lparr>agg_level = Str ''Kerala'', agg_growth_status = Str ''Normal'',
         agg_count = 1, agg_total = 1, agg_percentage = 100\<rparr>,
       \<lparr>agg_level = Str ''Orissa'', agg_growth_status = Str ''Stunted'',
         agg_count = 1, agg_total = 2, agg_percentage = 50\<rparr>,
       \<lparr>agg_level = Str ''Orissa'', agg_growth_status = Str ''Wasted'',
         agg_count = 1, agg_total = 2, agg_percentage = 50\<rparr>])) = 2"
proof -
  have h5: "(Str ''Orissa'', 2) \<in> set [(Str ''Kerala'', 1), (Str ''Orissa'', 2::nat)]" by simp
  from group_counts_sum_to_total[OF example_wf example_prepare example_agg example_total h5]
  show ?thesis by blast
qed

lemma sum_scaled:
  assumes "\<forall>r \<in> set rows. f r = 100 * of_nat (c r) / (d::rat)"
  shows "sum_list (map f rows) = 100 * of_nat (sum_list (map c rows)) / d"
  using assms by (induction rows) (simp_all add: add_divide_distrib distrib_left)

lemma aggregate_row:
  assumes "r \<in> set (aggregate ks gs)"
  obtains p where "p \<in> set (present2 ks gs)" "r = agg_row_of ks gs p"
  using assms by (auto simp: aggregate_eq)

lemma count_present_pos: "p \<in> set (present2 ks gs) \<Longrightarrow> 1 \<le> count_list (present ks) (fst p)"
  using present2_fst[of p ks gs] count_list_0_iff[of "present ks" "fst p"] by simp

text \<open>
  C7. Every group that the group-by produces at the chosen level has a total of at least one,
  so the divisor of the percentage is not zero in any row of \<^verbatim>\<open>agg\<close>.
\<close>

theorem totals_positive:
  assumes "tab1_agg l df = Inr agg" and "tab1_total l df = Inr totals"
  shows "(\<forall>(k, t) \<in> set totals. 1 \<le> t)
       \<and> (\<forall>r \<in> set agg. 1 \<le> agg_total r \<and> (of_nat (agg_total r) :: rat) \<noteq> 0)"
proof -
  from assms(1) obtain ks gs where ks: "get_col df (level_name l) = Inr ks"
    and agg: "agg = aggregate ks gs"
    by (auto simp: tab1_agg_def split: sum.splits)
  from assms(2) ks have totals: "totals = groupby_size ks" by (simp add: tab1_total_def)
  have 1: "1 \<le> t" if "(k, t) \<in> set totals" for k t
  proof -
    from that have "k \<in> set (present ks)" "t = count_list (present ks) k"
      unfolding totals by (auto simp: groupby_size_def present_def Let_def)
    then show ?thesis using count_list_0_iff[of "present ks" k] by simp
  qed
  have 2: "1 \<le> agg_total r" if "r \<in> set agg" for r
  proof -
    from that obtain p where "p \<in> set (present2 ks gs)" "r = agg_row_of ks gs p"
      unfolding agg by (rule aggregate_row)
    then show ?thesis using count_present_pos[of p ks gs] by (simp add: agg_row_of_def)
  qed
  have 3: "(of_nat (agg_total r) :: rat) \<noteq> 0" if "r \<in> set agg" for r
    using 2[OF that] by simp
  from 1 2 3 show ?thesis by blast
qed


theorem totals_positive_witness:
  "1 \<le> agg_total
      \<lparr>agg_level = Str ''Orissa'', agg_growth_status = Str ''Stunted'',
         agg_count = 1, agg_total = 2, agg_percentage = 50\<rparr>"
proof -
  have "\<lparr>agg_level = Str ''Orissa'', agg_growth_status = Str ''Stunted'',
         agg_count = 1, agg_total = 2, agg_percentage = 50\<rparr>
        \<in> set
      [\<lparr>agg_level = Str ''Kerala'', agg_growth_status = Str ''Normal'',
         agg_count = 1, agg_total = 1, agg_percentage = 100\<rparr>,
       \<lparr>agg_level = Str ''Orissa'', agg_growth_status = Str ''Stunted'',
         agg_count = 1, agg_total = 2, agg_percentage = 50\<rparr>,
       \<lparr>agg_level = Str ''Orissa'', agg_growth_status = Str ''Wasted'',
         agg_count = 1, agg_total = 2, agg_percentage = 50\<rparr>]"
    by simp
  with totals_positive[OF example_agg example_total] show ?thesis by blast
qed

text \<open>
  C2. In every row of \<^verbatim>\<open>agg\<close> the percentage is \<open>100 * count / total\<close> of that row with a
  nonzero total, and over the rationals the percentages of the rows of one group add up to
  exactly 100.
\<close>

theorem percentages_sum_to_100:
  assumes "wf_frame raw" and "prepare geojson_states raw = Inr df"
    and "tab1_agg l df = Inr agg" and "r \<in> set agg"
  shows "agg_percentage r = 100 * of_nat (agg_count r) / of_nat (agg_total r)
       \<and> agg_total r \<noteq> 0
       \<and> sum_list (map agg_percentage (filter (\<lambda>r'. agg_level r' = agg_level r) agg)) = 100"
proof -
  from prepare_clean[OF assms(1,2)] have "clean df" .
  from tab1_cols[OF this assms(3)] obtain ks gs where
    agg: "agg = aggregate ks gs" and len: "length ks = length gs" and nan: "NaN \<notin> set gs"
    by blast
  from assms(4) obtain p where p: "p \<in> set (present2 ks gs)" and r: "r = agg_row_of ks gs p"
    unfolding agg by (rule aggregate_row)
  define T where "T = count_list (present ks) (fst p)"
  have T: "1 \<le> T" unfolding T_def by (rule count_present_pos[OF p])
  let ?rows = "filter (\<lambda>r'. agg_level r' = agg_level r) agg"
  have "\<forall>r' \<in> set ?rows. agg_percentage r' = 100 * of_nat (agg_count r') / of_nat T"
    unfolding agg r T_def by (auto simp: aggregate_eq agg_row_of_def)
  then have "sum_list (map agg_percentage ?rows)
               = 100 * of_nat (sum_list (map agg_count ?rows)) / of_nat T"
    by (rule sum_scaled)
  also have "sum_list (map agg_count ?rows) = T"
    unfolding agg group_counts T_def r
    using present2_total[OF len nan, of "fst p"] by (simp add: agg_row_of_def)
  finally have "sum_list (map agg_percentage ?rows) = 100" using T by simp
  moreover have "agg_percentage r = 100 * of_nat (agg_count r) / of_nat (agg_total r)"
    unfolding r by (simp add: agg_row_of_def)
  moreover have "agg_total r \<noteq> 0" using T unfolding r T_def by (simp add: agg_row_of_def)
  ultimately show ?thesis by simp
qed


theorem percentages_sum_to_100_witness:
  "sum_list (map agg_percentage (filter (\<lambda>r'. agg_level r' = Str ''Orissa'')
      [\<lparr>agg_level = Str ''Kerala'', agg_growth_status = Str ''Normal'',
         agg_count = 1, agg_total = 1, agg_percentage = 100\<rparr>,
       \<lparr>agg_level = Str ''Orissa'', agg_growth_status = Str ''Stunted'',
         agg_count = 1, agg_total = 2, agg_percentage = 50\<rparr>,
       \<lparr>agg_level = Str ''Orissa'', agg_growth_status = Str ''Wasted'',
         agg_count = 1, agg_total = 2, agg_percentage = 50\<rparr>])) = 100"
proof -
  have h: "\<lparr>agg_level = Str ''Orissa'', agg_growth_status = Str ''Stunted'',
         agg_count = 1, agg_total = 2, agg_percentage = 50\<rparr>
        \<in> set
      [\<lparr>agg_level = Str ''Kerala'', agg_growth_status = Str ''Normal'',
         agg_count = 1, agg_total = 1, agg_percentage = 100\<rparr>,
       \<lparr>agg_level = Str ''Orissa'', agg_growth_status = Str ''Stunted'',
         agg_count = 1, agg_total = 2, agg_percentage = 50\<rparr>,
       \<lparr>agg_level = Str ''Orissa'', agg_growth_status = Str ''Wasted'',
         agg_count = 1, agg_total = 2, agg_percentage = 50\<rparr>]"
    by simp
  from percentages_sum_to_100[OF example_wf example_prepare example_agg h]
  show ?thesis by simp
qed



section \<open>The script as a program on a store of tables (lines 23--195)\<close>

text \<open>
  A pandas table is an object: \<^verbatim>\<open>x[c] = col\<close> changes the object that \<^verbatim>\<open>x\<close> names, for
  every variable that names it, while \<^verbatim>\<open>groupby(...).size()\<close>, \<^verbatim>\<open>merge\<close>, \<^verbatim>\<open>df[mask]\<close>,
  \<^verbatim>\<open>sort_values\<close> and \<^verbatim>\<open>mean\<close> build a new object. The state of the script is therefore a
  store of objects under addresses, the address each table variable holds, and the next free
  address. The figures handed to the plotting library are not part of the state.
\<close>

record subset_row = agg_row +
  highlight :: rat

datatype obj =
    Frame frame
  | Counts "(cell \<times> cell \<times> nat) list"
  | Totals "(cell \<times> nat) list"
  | Merged "(cell \<times> cell \<times> nat \<times> nat) list"
  | Agg "agg_row list"
  | Subset "subset_row list"
  | Means "(cell \<times> cell \<times> cell) list"

record state =
  store :: "(nat \<times> obj) list"
  vars :: "(string \<times> nat) list"
  next_addr :: nat

definition then_do :: "py_error + 'a \<Rightarrow> ('a \<Rightarrow> py_error + 'b) \<Rightarrow> py_error + 'b" where
  "then_do m f = (case m of Inl e \<Rightarrow> Inl e | Inr x \<Rightarrow> f x)"

text \<open>\<^verbatim>\<open>x = <new table>\<close>: the table gets a fresh address and \<^verbatim>\<open>x\<close> names it.\<close>

definition bind_new :: "string \<Rightarrow> obj \<Rightarrow> state \<Rightarrow> state" where
  "bind_new x v s =
     \<lparr>store = AList.update (next_addr s) v (store s),
      vars = AList.update x (next_addr s) (vars s),
      next_addr = next_addr s + 1\<rparr>"

text \<open>Reading the table a variable names.\<close>

definition lookup :: "string \<Rightarrow> state \<Rightarrow> py_error + obj" where
  "lookup x s =
     (case map_of (vars s) x of
        None \<Rightarrow> Inl (NameError x)
      | Some a \<Rightarrow> (case map_of (store s) a of None \<Rightarrow> Inl (NameError x) | Some v \<Rightarrow> Inr v))"

text \<open>
  \<^verbatim>\<open>x[c] = ...\<close>: the object that \<^verbatim>\<open>x\<close> names is changed where it is; no variable is
  rebound.
\<close>

definition mutate :: "string \<Rightarrow> (obj \<Rightarrow> py_error + obj) \<Rightarrow> state \<Rightarrow> py_error + state" where
  "mutate x f s =
     (case map_of (vars s) x of
        None \<Rightarrow> Inl (NameError x)
      | Some a \<Rightarrow>
          (case map_of (store s) a of
             None \<Rightarrow> Inl (NameError x)
           | Some v \<Rightarrow> then_do (f v) (\<lambda>v'. Inr (s\<lparr>store := AList.update a v' (store s)\<rparr>))))"

definition get_frame :: "string \<Rightarrow> state \<Rightarrow> py_error + frame" where
  "get_frame x s =
     then_do (lookup x s) (\<lambda>v. case v of Frame f \<Rightarrow> Inr f | _ \<Rightarrow> Inl TypeError)"

text \<open>A program is a list of statements, run until one raises.\<close>

fun run :: "(state \<Rightarrow> py_error + state) list \<Rightarrow> state \<Rightarrow> py_error + state" where
  "run [] s = Inr s"
| "run (stmt # rest) s = then_do (stmt s) (run rest)"

subsection \<open>Lines 23--58: loading, the initial filter, the rename pass\<close>

definition line_23 :: "frame \<Rightarrow> state \<Rightarrow> py_error + state" where
  "line_23 raw s = Inr (bind_new ''df'' (Frame raw) s)"

definition line_35 :: "state \<Rightarrow> py_error + state" where
  "line_35 s =
     then_do (get_frame ''df'' s) (\<lambda>df.
     then_do (filter_growth df) (\<lambda>kept. Inr (bind_new ''df'' (Frame kept) s)))"

definition lines_46_58 :: "string list \<Rightarrow> state \<Rightarrow> py_error + state" where
  "lines_46_58 geojson_states s =
     mutate ''df''
       (\<lambda>v. case v of
          Frame df \<Rightarrow> then_do (reconcile geojson_states df) (\<lambda>df'. Inr (Frame df'))
        | _ \<Rightarrow> Inl TypeError) s"

definition empty_state :: state where
  "empty_state = \<lparr>store = [], vars = [], next_addr = 0\<rparr>"

definition run_prepare :: "string list \<Rightarrow> frame \<Rightarrow> py_error + state" where
  "run_prepare geojson_states raw =
     run [line_23 raw, line_35, lines_46_58 geojson_states] empty_state"

subsection \<open>Panel 1 (lines 75--130)\<close>

text \<open>
  \<^verbatim>\<open>sort_values("percentage", ascending=False)\<close> uses NumPy's quicksort, which does not fix
  the order of rows with equal percentage. The sort is a parameter \<open>sort_values\<close> of the
  panel; what is known of it is \<open>sorts_by_percentage\<close>.
\<close>

definition sorts_by_percentage :: "(agg_row list \<Rightarrow> agg_row list) \<Rightarrow> bool" where
  "sorts_by_percentage sort_values \<longleftrightarrow>
     (\<forall>rows. mset (sort_values rows) = mset rows
        \<and> sorted_wrt (\<lambda>r r'. agg_percentage r' \<le> agg_percentage r) (sort_values rows))"

definition threshold :: rat where
  "threshold = 20"

definition with_highlight :: "agg_row \<Rightarrow> subset_row" where
  "with_highlight r =
     \<lparr>agg_level = agg_level r, agg_growth_status = agg_growth_status r,
      agg_count = agg_count r, agg_total = agg_total r, agg_percentage = agg_percentage r,
      highlight = (if agg_percentage r \<ge> threshold then agg_percentage r else 0)\<rparr>"

definition line_76 :: "level \<Rightarrow> state \<Rightarrow> py_error + state" where
  "line_76 l s =
     then_do (get_frame ''df'' s) (\<lambda>df.
     then_do (get_col df (level_name l)) (\<lambda>level_col.
     then_do (get_col df ''Growth_status'') (\<lambda>status_col.
       Inr (bind_new ''agg'' (Counts (groupby2_size level_col status_col)) s))))"

definition line_77 :: "level \<Rightarrow> state \<Rightarrow> py_error + state" where
  "line_77 l s =
     then_do (get_frame ''df'' s) (\<lambda>df.
     then_do (get_col df (level_name l)) (\<lambda>level_col.
       Inr (bind_new ''total'' (Totals (groupby_size level_col)) s)))"

definition line_78 :: "state \<Rightarrow> py_error + state" where
  "line_78 s =
     then_do (lookup ''agg'' s) (\<lambda>agg.
     then_do (lookup ''total'' s) (\<lambda>total.
       case (agg, total) of
         (Counts a, Totals t) \<Rightarrow> Inr (bind_new ''agg'' (Merged (merge_on_level a t)) s)
       | _ \<Rightarrow> Inl TypeError))"

definition line_79 :: "state \<Rightarrow> py_error + state" where
  "line_79 s =
     mutate ''agg''
       (\<lambda>v. case v of Merged m \<Rightarrow> Inr (Agg (map with_percentage m)) | _ \<Rightarrow> Inl TypeError) s"

definition line_82 :: "(agg_row list \<Rightarrow> agg_row list) \<Rightarrow> string \<Rightarrow> state \<Rightarrow> py_error + state" where
  "line_82 sort_values mal_type s =
     then_do (lookup ''agg'' s) (\<lambda>agg.
       case agg of
         Agg rows \<Rightarrow>
           Inr (bind_new ''subset''
                  (Agg (sort_values (filter (\<lambda>r. agg_growth_status r = Str mal_type) rows))) s)
       | _ \<Rightarrow> Inl TypeError)"

text \<open>Line 98 for the level \<^verbatim>\<open>State\<close>, line 117 for \<^verbatim>\<open>District\<close>: the same assignment.\<close>

definition line_98 :: "state \<Rightarrow> py_error + state" where
  "line_98 s =
     mutate ''subset''
       (\<lambda>v. case v of Agg rows \<Rightarrow> Inr (Subset (map with_highlight rows)) | _ \<Rightarrow> Inl TypeError) s"

definition tab1 :: "(agg_row list \<Rightarrow> agg_row list) \<Rightarrow> level \<Rightarrow> string \<Rightarrow> state \<Rightarrow> py_error + state" where
  "tab1 sort_values l mal_type =
     run [line_76 l, line_77 l, line_78, line_79, line_82 sort_values mal_type, line_98]"

subsection \<open>Panels 2 to 4 (lines 135--169)\<close>

text \<open>A chart of a column that the frame does not have raises \<^verbatim>\<open>ValueError\<close>.\<close>

fun require_cols :: "frame \<Rightarrow> string list \<Rightarrow> py_error \<Rightarrow> py_error + unit" where
  "require_cols df [] e = Inr ()"
| "require_cols df (c # cs) e = (if c \<in> set (map fst df) then require_cols df cs e else Inl e)"

definition tab2 :: "state \<Rightarrow> py_error + state" where
  "tab2 s =
     then_do (get_frame ''df'' s) (\<lambda>df.
     then_do (require_cols df [''Age_in_months'', ''Sex''] ValueError) (\<lambda>_. Inr s))"

text \<open>
  Line 149: the mean of \<^verbatim>\<open>Height_cm\<close> and of \<^verbatim>\<open>Weight_kg\<close> for every age. Missing values
  are skipped; a group without values has the mean \<^verbatim>\<open>NaN\<close>; a text cell in either column
  raises \<^verbatim>\<open>TypeError\<close>.
\<close>

definition is_text :: "cell \<Rightarrow> bool" where
  "is_text c = (case c of Str _ \<Rightarrow> True | _ \<Rightarrow> False)"

definition number_of :: "cell \<Rightarrow> rat" where
  "number_of c = (case c of Num q \<Rightarrow> q | _ \<Rightarrow> 0)"

definition mean_cells :: "column \<Rightarrow> cell" where
  "mean_cells col =
     (let vs = filter (\<lambda>v. v \<noteq> NaN) col
      in if vs = [] then NaN
         else if PosInf \<in> set vs \<and> NegInf \<in> set vs then NaN
         else if PosInf \<in> set vs then PosInf
         else if NegInf \<in> set vs then NegInf
         else Num (sum_list (map number_of vs) / of_nat (length vs)))"

definition group_values :: "column \<Rightarrow> column \<Rightarrow> cell \<Rightarrow> column" where
  "group_values keys col k = map snd (filter (\<lambda>(k', v). k' = k) (zip keys col))"

definition groupby_mean :: "column \<Rightarrow> column \<Rightarrow> column \<Rightarrow> (cell \<times> cell \<times> cell) list" where
  "groupby_mean keys col1 col2 =
     map (\<lambda>k. (k, mean_cells (group_values keys col1 k), mean_cells (group_values keys col2 k)))
       (sort_key sort_rank (remdups (filter (\<lambda>k. k \<noteq> NaN) keys)))"

definition line_149 :: "state \<Rightarrow> py_error + state" where
  "line_149 s =
     then_do (get_frame ''df'' s) (\<lambda>df.
     then_do (get_col df ''Age_in_months'') (\<lambda>age.
     then_do (require_cols df [''Height_cm'', ''Weight_kg''] (KeyError ''Columns not found'')) (\<lambda>_.
     then_do (get_col df ''Height_cm'') (\<lambda>height.
     then_do (get_col df ''Weight_kg'') (\<lambda>weight.
       if list_ex is_text height \<or> list_ex is_text weight then Inl TypeError
       else Inr (bind_new ''avg_hw'' (Means (groupby_mean age height weight)) s))))))"

definition line_154 :: "state \<Rightarrow> py_error + state" where
  "line_154 s =
     then_do (get_frame ''df'' s) (\<lambda>df.
     then_do (require_cols df [''MUAC_cm''] ValueError) (\<lambda>_. Inr s))"

definition tab3 :: "state \<Rightarrow> py_error + state" where
  "tab3 = run [line_149, line_154]"

definition line_162 :: "state \<Rightarrow> py_error + state" where
  "line_162 s =
     then_do (get_frame ''df'' s) (\<lambda>df.
     then_do (get_col df ''State'') (\<lambda>states.
     then_do (get_col df ''Immunization_status'') (\<lambda>immunization.
       Inr (bind_new ''immun'' (Counts (groupby2_size states immunization)) s))))"

definition line_167 :: "state \<Rightarrow> py_error + state" where
  "line_167 s =
     then_do (get_frame ''df'' s) (\<lambda>df.
     then_do (get_col df ''State'') (\<lambda>states.
     then_do (get_col df ''Supplementary_nutrition_received'') (\<lambda>supplementary.
       Inr (bind_new ''sup'' (Counts (groupby2_size states supplementary)) s))))"

definition tab4 :: "state \<Rightarrow> py_error + state" where
  "tab4 = run [line_162, line_167]"

subsection \<open>Panel 5 (lines 174--185)\<close>

text \<open>
  Lines 176--177:
  \<^verbatim>\<open>df["Mother_BMI"] = df["Mothers_weight_kg"] / ((df["Mothers_height_cm"]/100) ** 2)\<close>,
  cell by cell. Arithmetic on a text column raises \<^verbatim>\<open>TypeError\<close>; a missing value stays
  missing; a float division by zero gives an infinity or \<^verbatim>\<open>NaN\<close>.
\<close>

definition div100 :: "cell \<Rightarrow> cell" where
  "div100 c = (case c of Num q \<Rightarrow> Num (q / 100) | _ \<Rightarrow> c)"

definition square :: "cell \<Rightarrow> cell" where
  "square c = (case c of Num q \<Rightarrow> Num (q * q) | NegInf \<Rightarrow> PosInf | _ \<Rightarrow> c)"

fun divide_cell :: "cell \<Rightarrow> cell \<Rightarrow> cell" where
  "divide_cell (Num a) (Num b) =
     (if b \<noteq> 0 then Num (a / b)
      else if a > 0 then PosInf else if a < 0 then NegInf else NaN)"
| "divide_cell (Num a) PosInf = Num 0"
| "divide_cell (Num a) NegInf = Num 0"
| "divide_cell PosInf (Num b) = (if b \<ge> 0 then PosInf else NegInf)"
| "divide_cell NegInf (Num b) = (if b \<ge> 0 then NegInf else PosInf)"
| "divide_cell _ _ = NaN"

definition mother_bmi :: "column \<Rightarrow> column \<Rightarrow> py_error + column" where
  "mother_bmi weight height =
     (if list_ex is_text weight \<or> list_ex is_text height then Inl TypeError
      else Inr (map (\<lambda>(w, h). divide_cell w (square (div100 h))) (zip weight height)))"

definition lines_176_180 :: "state \<Rightarrow> py_error + state" where
  "lines_176_180 s =
     then_do (get_frame ''df'' s) (\<lambda>df.
       if ''Mothers_weight_kg'' \<in> set (map fst df) \<and> ''Mothers_height_cm'' \<in> set (map fst df)
       then
         then_do (get_col df ''Mothers_weight_kg'') (\<lambda>weight.
         then_do (get_col df ''Mothers_height_cm'') (\<lambda>height.
         then_do (mother_bmi weight height) (\<lambda>bmi.
         then_do (mutate ''df''
                    (\<lambda>v. case v of Frame f \<Rightarrow> Inr (Frame (set_col f ''Mother_BMI'' bmi))
                         | _ \<Rightarrow> Inl TypeError) s) (\<lambda>s'.
         then_do (get_frame ''df'' s') (\<lambda>df'.
         then_do (require_cols df' [''Age_in_months'', ''Growth_status''] ValueError) (\<lambda>_.
           Inr s'))))))
       else Inr s)"

definition lines_182_185 :: "state \<Rightarrow> py_error + state" where
  "lines_182_185 s =
     then_do (get_frame ''df'' s) (\<lambda>df.
       if ''Maternal_anemia_status'' \<in> set (map fst df)
       then then_do (require_cols df [''Age_in_months'', ''Growth_status''] ValueError) (\<lambda>_. Inr s)
       else Inr s)"

definition tab5 :: "state \<Rightarrow> py_error + state" where
  "tab5 = run [lines_176_180, lines_182_185]"

subsection \<open>The whole script\<close>

definition panels :: "(agg_row list \<Rightarrow> agg_row list) \<Rightarrow> level \<Rightarrow> string \<Rightarrow> state \<Rightarrow> py_error + state" where
  "panels sort_values l mal_type = run [tab1 sort_values l mal_type, tab2, tab3, tab4, tab5]"

definition dashboard ::
  "(agg_row list \<Rightarrow> agg_row list) \<Rightarrow> string list \<Rightarrow> level \<Rightarrow> string \<Rightarrow> frame \<Rightarrow> py_error + state" where
  "dashboard sort_values geojson_states l mal_type raw =
     then_do (run_prepare geojson_states raw) (panels sort_values l mal_type)"


definition stable_sort_desc :: "agg_row list \<Rightarrow> agg_row list" where
  "stable_sort_desc rows = sort_key (\<lambda>r. - agg_percentage r) rows"

definition df_column :: "string \<Rightarrow> state \<Rightarrow> py_error + column" where
  "df_column c s = then_do (get_frame ''df'' s) (\<lambda>df. get_col df c)"

section \<open>What the panels do to the dataset\<close>

text \<open>
  The invariant: \<^verbatim>\<open>df\<close> names the object at address \<open>a\<close>, that object is the frame \<open>f\<close>,
  the address is in use, and no other variable names the same object.
\<close>

definition df_is :: "nat \<Rightarrow> frame \<Rightarrow> state \<Rightarrow> bool" where
  "df_is a f s \<longleftrightarrow>
     map_of (vars s) ''df'' = Some a \<and> map_of (store s) a = Some (Frame f) \<and> a < next_addr s
     \<and> (\<forall>x b. map_of (vars s) x = Some b \<and> x \<noteq> ''df'' \<longrightarrow> b \<noteq> a)"

lemma then_do_Inr: "then_do m f = Inr r \<longleftrightarrow> (\<exists>x. m = Inr x \<and> f x = Inr r)"
  by (cases m) (simp_all add: then_do_def)

lemma then_do_simps [simp]: "then_do (Inr x) f = f x" "then_do (Inl e) f = Inl e"
  by (simp_all add: then_do_def)

lemma get_frame_df: "df_is a f s \<Longrightarrow> get_frame ''df'' s = Inr f"
  by (simp add: df_is_def get_frame_def lookup_def)

lemma bind_new_keeps:
  assumes "df_is a f s" and "x \<noteq> ''df''"
  shows "df_is a f (bind_new x v s)"
  using assms by (auto simp: df_is_def bind_new_def update_conv')

lemma mutate_keeps:
  assumes "df_is a f s" and "x \<noteq> ''df''" and "mutate x g s = Inr s'"
  shows "df_is a f s'"
proof -
  from assms(3) obtain b v v' where b: "map_of (vars s) x = Some b"
    and "map_of (store s) b = Some v" and "g v = Inr v'"
    and s': "s' = s\<lparr>store := AList.update b v' (store s)\<rparr>"
    by (auto simp: mutate_def then_do_Inr split: option.splits)
  from assms(1,2) b have "b \<noteq> a" by (auto simp: df_is_def)
  with assms(1) s' show ?thesis by (simp add: df_is_def update_conv')
qed

lemma mutate_df:
  assumes "df_is a f s" and "mutate ''df'' g s = Inr s'"
  obtains v' where "g (Frame f) = Inr v'" and "\<And>f'. v' = Frame f' \<Longrightarrow> df_is a f' s'"
proof -
  from assms obtain v' where g: "g (Frame f) = Inr v'"
    and s': "s' = s\<lparr>store := AList.update a v' (store s)\<rparr>"
    by (auto simp: mutate_def df_is_def then_do_Inr)
  have "df_is a f' s'" if "v' = Frame f'" for f'
    using assms(1) s' that by (simp add: df_is_def update_conv')
  with g that show ?thesis by blast
qed

lemma run_append: "run (xs @ ys) s = then_do (run xs s) (run ys)"
  by (induction xs arbitrary: s) (simp_all add: then_do_def split: sum.splits)

lemma run_keeps:
  assumes "\<And>stmt s s'. stmt \<in> set stmts \<Longrightarrow> P s \<Longrightarrow> stmt s = Inr s' \<Longrightarrow> P s'"
    and "P s" and "run stmts s = Inr s'"
  shows "P s'"
  using assms
proof (induction stmts arbitrary: s)
  case Nil
  then show ?case by simp
next
  case (Cons stmt stmts)
  from Cons.prems(3) obtain s1 where 1: "stmt s = Inr s1" and 2: "run stmts s1 = Inr s'"
    by (auto simp: then_do_Inr)
  have "stmt \<in> set (stmt # stmts)" by simp
  from Cons.prems(1)[OF this Cons.prems(2) 1] have p1: "P s1" .
  have step: "P t'" if "st \<in> set stmts" "P t" "st t = Inr t'" for st t t'
  proof -
    from that(1) have "st \<in> set (stmt # stmts)" by simp
    from Cons.prems(1)[OF this that(2,3)] show ?thesis .
  qed
  from Cons.IH[OF step p1 2] show ?case .
qed

subsection \<open>Panels 1 to 4 leave the dataset as it is\<close>

lemma line_76_keeps: "df_is a f s \<Longrightarrow> line_76 l s = Inr s' \<Longrightarrow> df_is a f s'"
  by (auto simp: line_76_def then_do_Inr intro!: bind_new_keeps)

lemma line_77_keeps: "df_is a f s \<Longrightarrow> line_77 l s = Inr s' \<Longrightarrow> df_is a f s'"
  by (auto simp: line_77_def then_do_Inr intro!: bind_new_keeps)

lemma line_78_shape: "line_78 s = Inr s' \<Longrightarrow> \<exists>v. s' = bind_new ''agg'' v s"
  unfolding line_78_def then_do_Inr
  by (elim exE conjE) (auto split: obj.split_asm)

lemma line_78_keeps: "df_is a f s \<Longrightarrow> line_78 s = Inr s' \<Longrightarrow> df_is a f s'"
  using line_78_shape[of s s'] bind_new_keeps[of a f s "''agg''"] by auto

lemma line_79_keeps: "df_is a f s \<Longrightarrow> line_79 s = Inr s' \<Longrightarrow> df_is a f s'"
  unfolding line_79_def by (rule mutate_keeps) simp_all

lemma line_82_shape: "line_82 sv m s = Inr s' \<Longrightarrow> \<exists>v. s' = bind_new ''subset'' v s"
  unfolding line_82_def then_do_Inr
  by (elim exE conjE) (auto split: obj.split_asm)

lemma line_82_keeps: "df_is a f s \<Longrightarrow> line_82 sv m s = Inr s' \<Longrightarrow> df_is a f s'"
  using line_82_shape[of sv m s s'] bind_new_keeps[of a f s "''subset''"] by auto

lemma line_98_keeps: "df_is a f s \<Longrightarrow> line_98 s = Inr s' \<Longrightarrow> df_is a f s'"
  unfolding line_98_def by (rule mutate_keeps) simp_all

lemma run_Cons_Inr:
  "run (stmt # rest) s = Inr s' \<longleftrightarrow> (\<exists>s1. stmt s = Inr s1 \<and> run rest s1 = Inr s')"
  by (simp add: then_do_Inr)

lemma tab1_keeps:
  assumes "df_is a f s" and "tab1 sort_values l mal_type s = Inr s'"
  shows "df_is a f s'"
proof -
  from assms(2) obtain s1 where 1: "line_76 l s = Inr s1"
    and r1: "run [line_77 l, line_78, line_79, line_82 sort_values mal_type, line_98] s1 = Inr s'"
    unfolding tab1_def run_Cons_Inr by blast
  from r1 obtain s2 where 2: "line_77 l s1 = Inr s2"
    and r2: "run [line_78, line_79, line_82 sort_values mal_type, line_98] s2 = Inr s'"
    unfolding run_Cons_Inr by blast
  from r2 obtain s3 where 3: "line_78 s2 = Inr s3"
    and r3: "run [line_79, line_82 sort_values mal_type, line_98] s3 = Inr s'"
    unfolding run_Cons_Inr by blast
  from r3 obtain s4 where 4: "line_79 s3 = Inr s4"
    and r4: "run [line_82 sort_values mal_type, line_98] s4 = Inr s'"
    unfolding run_Cons_Inr by blast
  from r4 obtain s5 where 5: "line_82 sort_values mal_type s4 = Inr s5" and 6: "line_98 s5 = Inr s'"
    unfolding run_Cons_Inr by auto
  note line_76_keeps[OF assms(1) 1]
  note line_77_keeps[OF this 2]
  note line_78_keeps[OF this 3]
  note line_79_keeps[OF this 4]
  note line_82_keeps[OF this 5]
  from line_98_keeps[OF this 6] show ?thesis .
qed

lemma tab2_keeps: "df_is a f s \<Longrightarrow> tab2 s = Inr s' \<Longrightarrow> df_is a f s'"
  by (auto simp: tab2_def then_do_Inr)

lemma line_149_keeps: "df_is a f s \<Longrightarrow> line_149 s = Inr s' \<Longrightarrow> df_is a f s'"
  by (auto simp: line_149_def then_do_Inr split: if_splits intro!: bind_new_keeps)

lemma line_154_keeps: "df_is a f s \<Longrightarrow> line_154 s = Inr s' \<Longrightarrow> df_is a f s'"
  by (auto simp: line_154_def then_do_Inr)

lemma tab3_keeps:
  assumes "df_is a f s" and "tab3 s = Inr s'"
  shows "df_is a f s'"
proof -
  from assms(2) obtain s1 where "line_149 s = Inr s1" "line_154 s1 = Inr s'"
    unfolding tab3_def run.simps then_do_Inr by blast
  with assms(1) show ?thesis by (blast intro: line_149_keeps line_154_keeps)
qed

lemma line_162_keeps: "df_is a f s \<Longrightarrow> line_162 s = Inr s' \<Longrightarrow> df_is a f s'"
  by (auto simp: line_162_def then_do_Inr intro!: bind_new_keeps)

lemma line_167_keeps: "df_is a f s \<Longrightarrow> line_167 s = Inr s' \<Longrightarrow> df_is a f s'"
  by (auto simp: line_167_def then_do_Inr intro!: bind_new_keeps)

lemma tab4_keeps:
  assumes "df_is a f s" and "tab4 s = Inr s'"
  shows "df_is a f s'"
proof -
  from assms(2) obtain s1 where "line_162 s = Inr s1" "line_167 s1 = Inr s'"
    unfolding tab4_def run.simps then_do_Inr by blast
  with assms(1) show ?thesis by (blast intro: line_162_keeps line_167_keeps)
qed

lemma tabs_1_to_4_keep:
  assumes "df_is a f s" and "run [tab1 sort_values l mal_type, tab2, tab3, tab4] s = Inr s'"
  shows "df_is a f s'"
proof -
  from assms(2) obtain s1 where 1: "tab1 sort_values l mal_type s = Inr s1"
    and r1: "run [tab2, tab3, tab4] s1 = Inr s'"
    unfolding run_Cons_Inr by blast
  from r1 obtain s2 where 2: "tab2 s1 = Inr s2" and r2: "run [tab3, tab4] s2 = Inr s'"
    unfolding run_Cons_Inr by blast
  from r2 obtain s3 where 3: "tab3 s2 = Inr s3" and 4: "tab4 s3 = Inr s'"
    unfolding run_Cons_Inr by auto
  note tab1_keeps[OF assms(1) 1]
  note tab2_keeps[OF this 2]
  note tab3_keeps[OF this 3]
  from tab4_keeps[OF this 4] show ?thesis .
qed

subsection \<open>Panel 5 assigns one column\<close>

lemma lines_176_180_effect:
  assumes "df_is a f s" and "lines_176_180 s = Inr s'"
  shows "\<exists>f'. df_is a f' s'
           \<and> (f' = f
                \<or> (''Mothers_weight_kg'' \<in> set (map fst f) \<and> ''Mothers_height_cm'' \<in> set (map fst f)
                    \<and> (\<exists>bmi. f' = set_col f ''Mother_BMI'' bmi)))"
proof (cases "''Mothers_weight_kg'' \<in> set (map fst f) \<and> ''Mothers_height_cm'' \<in> set (map fst f)")
  case True
  from assms(2) True obtain bmi where
    m: "mutate ''df'' (\<lambda>v. case v of Frame f \<Rightarrow> Inr (Frame (set_col f ''Mother_BMI'' bmi))
                         | _ \<Rightarrow> Inl TypeError) s = Inr s'"
    unfolding lines_176_180_def get_frame_df[OF assms(1)] then_do_simps
    by (auto simp: then_do_Inr)
  from mutate_df[OF assms(1) m] obtain v' where
    "Inr (Frame (set_col f ''Mother_BMI'' bmi)) = (Inr v' :: py_error + obj)"
    and "\<And>f'. v' = Frame f' \<Longrightarrow> df_is a f' s'"
    by auto
  then have "df_is a (set_col f ''Mother_BMI'' bmi) s'" by simp
  with True show ?thesis by blast
next
  case False
  with assms(2) have "s' = s"
    unfolding lines_176_180_def get_frame_df[OF assms(1)] then_do_simps by auto
  with assms(1) show ?thesis by blast
qed

lemma lines_182_185_keeps: "df_is a f s \<Longrightarrow> lines_182_185 s = Inr s' \<Longrightarrow> df_is a f s'"
  by (auto simp: lines_182_185_def then_do_Inr split: if_splits)

lemma tab5_effect:
  assumes "df_is a f s" and "tab5 s = Inr s'"
  shows "\<exists>f'. df_is a f' s'
           \<and> (f' = f
                \<or> (''Mothers_weight_kg'' \<in> set (map fst f) \<and> ''Mothers_height_cm'' \<in> set (map fst f)
                    \<and> (\<exists>bmi. f' = set_col f ''Mother_BMI'' bmi)))"
proof -
  from assms(2) obtain s1 where 1: "lines_176_180 s = Inr s1" and 2: "lines_182_185 s1 = Inr s'"
    unfolding tab5_def run.simps then_do_Inr by blast
  from lines_176_180_effect[OF assms(1) 1] obtain f' where
    f': "df_is a f' s1" and d: "f' = f
          \<or> (''Mothers_weight_kg'' \<in> set (map fst f) \<and> ''Mothers_height_cm'' \<in> set (map fst f)
              \<and> (\<exists>bmi. f' = set_col f ''Mother_BMI'' bmi))"
    by blast
  from lines_182_185_keeps[OF f' 2] d show ?thesis by blast
qed

subsection \<open>The dataset when the panels start\<close>

lemma run_prepare_df:
  assumes "run_prepare geojson_states raw = Inr s"
  shows "\<exists>df. prepare geojson_states raw = Inr df \<and> df_is 1 df s"
proof -
  let ?s0 = "bind_new ''df'' (Frame raw) empty_state"
  have g0: "get_frame ''df'' ?s0 = Inr raw"
    by (simp add: get_frame_def lookup_def bind_new_def empty_state_def)
  from assms obtain s1 where 1: "line_35 ?s0 = Inr s1" and 2: "lines_46_58 geojson_states s1 = Inr s"
    unfolding run_prepare_def run.simps line_23_def then_do_simps then_do_Inr by blast
  from 1 g0 obtain kept where k: "filter_growth raw = Inr kept"
    and s1: "s1 = bind_new ''df'' (Frame kept) ?s0"
    unfolding line_35_def by (auto simp: then_do_Inr)
  have d1: "df_is 1 kept s1"
    unfolding s1 by (simp add: df_is_def bind_new_def empty_state_def)
  from mutate_df[OF d1 2[unfolded lines_46_58_def]] obtain v' where
    r: "then_do (reconcile geojson_states kept) (\<lambda>df'. Inr (Frame df')) = Inr v'"
    and d: "\<And>f'. v' = Frame f' \<Longrightarrow> df_is 1 f' s"
    by auto
  from r obtain df where "reconcile geojson_states kept = Inr df" "v' = Frame df"
    by (auto simp: then_do_Inr)
  with k d show ?thesis by (auto simp: prepare_def)
qed


subsection \<open>Panel 1 builds the tables of the aggregator\<close>

text \<open>A variable names the object at an address in use, and that object is a given table.\<close>

definition var_at :: "string \<Rightarrow> nat \<Rightarrow> obj \<Rightarrow> state \<Rightarrow> bool" where
  "var_at x b v s \<longleftrightarrow>
     map_of (vars s) x = Some b \<and> map_of (store s) b = Some v \<and> b < next_addr s"

lemma var_at_lookup: "var_at x b v s \<Longrightarrow> lookup x s = Inr v"
  by (simp add: var_at_def lookup_def)

lemma next_addr_bind_new [simp]: "next_addr (bind_new x v s) = next_addr s + 1"
  by (simp add: bind_new_def)

lemma var_at_bind_new_same: "var_at x (next_addr s) v (bind_new x v s)"
  by (simp add: var_at_def bind_new_def update_conv')

lemma var_at_bind_new_other: "var_at x b v s \<Longrightarrow> x \<noteq> y \<Longrightarrow> var_at x b v (bind_new y w s)"
  by (auto simp: var_at_def bind_new_def update_conv')

lemma mutate_same:
  assumes "var_at x b v s" and "mutate x g s = Inr s'"
  obtains v' where "g v = Inr v'" "var_at x b v' s'" "next_addr s' = next_addr s"
    "\<And>y c w. var_at y c w s \<Longrightarrow> c \<noteq> b \<Longrightarrow> var_at y c w s'"
proof -
  from assms obtain v' where g: "g v = Inr v'"
    and s': "s' = s\<lparr>store := AList.update b v' (store s)\<rparr>"
    by (auto simp: mutate_def var_at_def then_do_Inr)
  have "var_at x b v' s'" using assms(1) s' by (simp add: var_at_def update_conv')
  moreover have "next_addr s' = next_addr s" using s' by simp
  moreover have "var_at y c w s'" if "var_at y c w s" "c \<noteq> b" for y c w
    using that s' by (simp add: var_at_def update_conv')
  ultimately show ?thesis using g that by blast
qed

lemma df_is_var_at: "df_is a f s \<Longrightarrow> var_at ''df'' a (Frame f) s"
  by (simp add: df_is_def var_at_def)

lemma line_76_result:
  assumes "df_is a f s" and "line_76 l s = Inr s1"
  shows "\<exists>ks gs. get_col f (level_name l) = Inr ks \<and> get_col f ''Growth_status'' = Inr gs
           \<and> s1 = bind_new ''agg'' (Counts (groupby2_size ks gs)) s"
proof -
  from assms(2) have "then_do (get_col f (level_name l)) (\<lambda>level_col.
     then_do (get_col f ''Growth_status'') (\<lambda>status_col.
       Inr (bind_new ''agg'' (Counts (groupby2_size level_col status_col)) s))) = Inr s1"
    unfolding line_76_def get_frame_df[OF assms(1)] then_do_simps .
  then obtain ks where ks: "get_col f (level_name l) = Inr ks"
    and "then_do (get_col f ''Growth_status'') (\<lambda>status_col.
       Inr (bind_new ''agg'' (Counts (groupby2_size ks status_col)) s)) = Inr s1"
    unfolding then_do_Inr by blast
  then obtain gs where "get_col f ''Growth_status'' = Inr gs"
    and "Inr (bind_new ''agg'' (Counts (groupby2_size ks gs)) s) = (Inr s1 :: py_error + state)"
    unfolding then_do_Inr by blast
  with ks show ?thesis by simp
qed

lemma line_77_result:
  assumes "df_is a f s" and "line_77 l s = Inr s1" and "get_col f (level_name l) = Inr ks"
  shows "s1 = bind_new ''total'' (Totals (groupby_size ks)) s"
  using assms(2) unfolding line_77_def get_frame_df[OF assms(1)] assms(3) then_do_simps by simp

lemma line_78_result:
  assumes "var_at ''agg'' b (Counts c) s" and "var_at ''total'' b' (Totals t) s"
    and "line_78 s = Inr s1"
  shows "s1 = bind_new ''agg'' (Merged (merge_on_level c t)) s"
  using assms(3)
  unfolding line_78_def var_at_lookup[OF assms(1)] var_at_lookup[OF assms(2)] then_do_simps
  by simp

lemma line_79_result:
  assumes "var_at ''agg'' b (Merged m) s" and "line_79 s = Inr s1"
  shows "var_at ''agg'' b (Agg (map with_percentage m)) s1" and "next_addr s1 = next_addr s"
    and "\<And>y c w. var_at y c w s \<Longrightarrow> c \<noteq> b \<Longrightarrow> var_at y c w s1"
proof -
  from mutate_same[OF assms(1) assms(2)[unfolded line_79_def]] obtain v where
    v: "(case Merged m of Merged m \<Rightarrow> Inr (Agg (map with_percentage m)) | _ \<Rightarrow> Inl TypeError)
       = (Inr v :: py_error + obj)"
    and r: "var_at ''agg'' b v s1" "next_addr s1 = next_addr s"
      "\<And>y c w. var_at y c w s \<Longrightarrow> c \<noteq> b \<Longrightarrow> var_at y c w s1"
    by metis
  from v have "v = Agg (map with_percentage m)" by simp
  with r show "var_at ''agg'' b (Agg (map with_percentage m)) s1" and "next_addr s1 = next_addr s"
    and "\<And>y c w. var_at y c w s \<Longrightarrow> c \<noteq> b \<Longrightarrow> var_at y c w s1"
    by simp_all
qed

lemma line_82_result:
  assumes "var_at ''agg'' b (Agg rows) s" and "line_82 sort_values mal_type s = Inr s1"
  shows "s1 = bind_new ''subset''
                (Agg (sort_values (filter (\<lambda>r. agg_growth_status r = Str mal_type) rows))) s"
  using assms(2) unfolding line_82_def var_at_lookup[OF assms(1)] then_do_simps by simp

lemma line_98_result:
  assumes "var_at ''subset'' b (Agg rows) s" and "line_98 s = Inr s1"
  shows "var_at ''subset'' b (Subset (map with_highlight rows)) s1"
    and "\<And>y c w. var_at y c w s \<Longrightarrow> c \<noteq> b \<Longrightarrow> var_at y c w s1"
proof -
  from mutate_same[OF assms(1) assms(2)[unfolded line_98_def]] obtain v where
    v: "(case Agg rows of Agg rows \<Rightarrow> Inr (Subset (map with_highlight rows)) | _ \<Rightarrow> Inl TypeError)
       = (Inr v :: py_error + obj)"
    and r: "var_at ''subset'' b v s1"
      "\<And>y c w. var_at y c w s \<Longrightarrow> c \<noteq> b \<Longrightarrow> var_at y c w s1"
    by metis
  from v have "v = Subset (map with_highlight rows)" by simp
  with r show "var_at ''subset'' b (Subset (map with_highlight rows)) s1"
    and "\<And>y c w. var_at y c w s \<Longrightarrow> c \<noteq> b \<Longrightarrow> var_at y c w s1"
    by simp_all
qed

text \<open>
  Panel 1 builds the tables of the aggregator: when it is through, \<^verbatim>\<open>total\<close> names the
  table of line 77, \<^verbatim>\<open>agg\<close> names the table \<^const>\<open>tab1_agg\<close> of lines 76--79, and
  \<^verbatim>\<open>subset\<close> its rows with the chosen growth status, sorted, with their highlight.
\<close>

lemma tab1_builds:
  assumes "df_is a f s" and "tab1 sort_values l mal_type s = Inr s'"
  shows "\<exists>agg totals.
           tab1_agg l f = Inr agg \<and> tab1_total l f = Inr totals
         \<and> lookup ''agg'' s' = Inr (Agg agg) \<and> lookup ''total'' s' = Inr (Totals totals)
         \<and> lookup ''subset'' s'
             = Inr (Subset (map with_highlight
                 (sort_values (filter (\<lambda>r. agg_growth_status r = Str mal_type) agg))))"
proof -
  define n where "n = next_addr s"
  from assms(2) obtain s1 where 1: "line_76 l s = Inr s1"
    and r1: "run [line_77 l, line_78, line_79, line_82 sort_values mal_type, line_98] s1 = Inr s'"
    unfolding tab1_def run_Cons_Inr by blast
  from r1 obtain s2 where 2: "line_77 l s1 = Inr s2"
    and r2: "run [line_78, line_79, line_82 sort_values mal_type, line_98] s2 = Inr s'"
    unfolding run_Cons_Inr by blast
  from r2 obtain s3 where 3: "line_78 s2 = Inr s3"
    and r3: "run [line_79, line_82 sort_values mal_type, line_98] s3 = Inr s'"
    unfolding run_Cons_Inr by blast
  from r3 obtain s4 where 4: "line_79 s3 = Inr s4"
    and r4: "run [line_82 sort_values mal_type, line_98] s4 = Inr s'"
    unfolding run_Cons_Inr by blast
  from r4 obtain s5 where 5: "line_82 sort_values mal_type s4 = Inr s5" and 6: "line_98 s5 = Inr s'"
    unfolding run_Cons_Inr by auto
  from line_76_result[OF assms(1) 1] obtain ks gs where ks: "get_col f (level_name l) = Inr ks"
    and gs: "get_col f ''Growth_status'' = Inr gs"
    and s1: "s1 = bind_new ''agg'' (Counts (groupby2_size ks gs)) s"
    by blast
  have d1: "df_is a f s1" by (rule line_76_keeps[OF assms(1) 1])
  have a1: "var_at ''agg'' n (Counts (groupby2_size ks gs)) s1"
    unfolding s1 n_def by (rule var_at_bind_new_same)
  have n1: "next_addr s1 = n + 1" unfolding s1 n_def by simp
  have s2: "s2 = bind_new ''total'' (Totals (groupby_size ks)) s1"
    by (rule line_77_result[OF d1 2 ks])
  have a2: "var_at ''agg'' n (Counts (groupby2_size ks gs)) s2"
    unfolding s2 by (rule var_at_bind_new_other[OF a1]) simp
  have t2: "var_at ''total'' (n + 1) (Totals (groupby_size ks)) s2"
    unfolding s2 n1[symmetric] by (rule var_at_bind_new_same)
  have n2: "next_addr s2 = n + 2" unfolding s2 using n1 by simp
  let ?m = "merge_on_level (groupby2_size ks gs) (groupby_size ks)"
  have s3: "s3 = bind_new ''agg'' (Merged ?m) s2"
    by (rule line_78_result[OF a2 t2 3])
  have a3: "var_at ''agg'' (n + 2) (Merged ?m) s3"
    unfolding s3 n2[symmetric] by (rule var_at_bind_new_same)
  have t3: "var_at ''total'' (n + 1) (Totals (groupby_size ks)) s3"
    unfolding s3 by (rule var_at_bind_new_other[OF t2]) simp
  have n3: "next_addr s3 = n + 3" unfolding s3 using n2 by simp
  note l79 = line_79_result[OF a3 4]
  have a4: "var_at ''agg'' (n + 2) (Agg (aggregate ks gs)) s4"
    using l79(1) by (simp add: aggregate_def)
  have t4: "var_at ''total'' (n + 1) (Totals (groupby_size ks)) s4" by (rule l79(3)[OF t3]) simp
  have n4: "next_addr s4 = n + 3" using l79(2) n3 by simp
  let ?sub = "sort_values (filter (\<lambda>r. agg_growth_status r = Str mal_type) (aggregate ks gs))"
  have s5: "s5 = bind_new ''subset'' (Agg ?sub) s4"
    by (rule line_82_result[OF a4 5])
  have a5: "var_at ''agg'' (n + 2) (Agg (aggregate ks gs)) s5"
    unfolding s5 by (rule var_at_bind_new_other[OF a4]) simp
  have t5: "var_at ''total'' (n + 1) (Totals (groupby_size ks)) s5"
    unfolding s5 by (rule var_at_bind_new_other[OF t4]) simp
  have u5: "var_at ''subset'' (n + 3) (Agg ?sub) s5"
    unfolding s5 n4[symmetric] by (rule var_at_bind_new_same)
  note l98 = line_98_result[OF u5 6]
  have a6: "var_at ''agg'' (n + 2) (Agg (aggregate ks gs)) s'" by (rule l98(2)[OF a5]) simp
  have t6: "var_at ''total'' (n + 1) (Totals (groupby_size ks)) s'" by (rule l98(2)[OF t5]) simp
  have g1: "tab1_agg l f = Inr (aggregate ks gs)" using ks gs by (simp add: tab1_agg_def)
  have g2: "tab1_total l f = Inr (groupby_size ks)" using ks by (simp add: tab1_total_def)
  show ?thesis
    by (intro exI[of _ "aggregate ks gs"] exI[of _ "groupby_size ks"] conjI g1 g2
        var_at_lookup[OF a6] var_at_lookup[OF t6] var_at_lookup[OF l98(1)])
qed

lemma stable_sort_desc_sorts: "sorts_by_percentage stable_sort_desc"
proof -
  have "sorted_wrt (\<lambda>r r'. agg_percentage r' \<le> agg_percentage r)
          (sort_key (\<lambda>r. - agg_percentage r) rows)" for rows :: "agg_row list"
  proof -
    have "sorted (map (\<lambda>r. - agg_percentage r) (sort_key (\<lambda>r. - agg_percentage r) rows))"
      by (rule sorted_sort_key)
    then show ?thesis by (simp add: sorted_map)
  qed
  then show ?thesis by (simp add: sorts_by_percentage_def stable_sort_desc_def)
qed

subsection \<open>The dataset at the end of the script\<close>

lemma set_col_new: "k \<notin> set (map fst df) \<Longrightarrow> set_col df k col = df @ [(k, col)]"
  unfolding set_col_def by (induction df) auto

lemma set_col_names: "k \<in> set (map fst df) \<Longrightarrow> map fst (set_col df k col) = map fst df"
  by (simp add: set_col_def update_keys)

lemma then_do_Inr_id [simp]: "then_do m Inr = m"
  by (cases m) simp_all

text \<open>
  C8 (as amended). When the script runs through, let \<open>df\<close> be the dataset left by the initial
  filter and the rename pass. Panels 1 to 4 leave the object that \<^verbatim>\<open>df\<close> names as it is:
  it is still the frame \<open>df\<close> when panel 5 starts. The dataset at the end is \<open>df\<close> itself or
  \<open>df\<close> with the column \<^verbatim>\<open>Mother_BMI\<close> assigned, and the latter only if both
  \<^verbatim>\<open>Mothers_weight_kg\<close> and \<^verbatim>\<open>Mothers_height_cm\<close> are columns of \<open>df\<close>. Every column with
  another name holds the same values in the same rows as before. If \<open>df\<close> has no column
  \<^verbatim>\<open>Mother_BMI\<close> the assignment adds it as the last column; if \<open>df\<close> has one, the assignment
  overwrites it and the column names stay as they are.
\<close>

theorem panels_assign_only_mother_bmi:
  assumes "dashboard sort_values geojson_states l mal_type raw = Inr s'"
  shows "\<exists>df s0 s4 final.
           prepare geojson_states raw = Inr df
         \<and> run_prepare geojson_states raw = Inr s0 \<and> get_frame ''df'' s0 = Inr df
         \<and> run [tab1 sort_values l mal_type, tab2, tab3, tab4] s0 = Inr s4
         \<and> get_frame ''df'' s4 = Inr df
         \<and> tab5 s4 = Inr s' \<and> get_frame ''df'' s' = Inr final
         \<and> (final = df
              \<or> (''Mothers_weight_kg'' \<in> set (map fst df) \<and> ''Mothers_height_cm'' \<in> set (map fst df)
                  \<and> (\<exists>bmi. final = set_col df ''Mother_BMI'' bmi)))
         \<and> (\<forall>c. c \<noteq> ''Mother_BMI'' \<longrightarrow> get_col final c = get_col df c)
         \<and> (''Mother_BMI'' \<notin> set (map fst df) \<longrightarrow>
               final = df \<or> (\<exists>bmi. final = df @ [(''Mother_BMI'', bmi)]))
         \<and> (''Mother_BMI'' \<in> set (map fst df) \<longrightarrow> map fst final = map fst df)"
proof -
  from assms obtain s0 where s0: "run_prepare geojson_states raw = Inr s0"
    and p: "panels sort_values l mal_type s0 = Inr s'"
    unfolding dashboard_def then_do_Inr by blast
  from run_prepare_df[OF s0] obtain df where df: "prepare geojson_states raw = Inr df"
    and d0: "df_is 1 df s0" by blast
  have "run ([tab1 sort_values l mal_type, tab2, tab3, tab4] @ [tab5]) s0
          = then_do (run [tab1 sort_values l mal_type, tab2, tab3, tab4] s0) (run [tab5])"
    by (rule run_append)
  moreover have "run [tab5] = tab5"
  proof
    fix x show "run [tab5] x = tab5 x" by (cases "tab5 x") simp_all
  qed
  ultimately have "panels sort_values l mal_type s0
          = then_do (run [tab1 sort_values l mal_type, tab2, tab3, tab4] s0) tab5"
    by (simp only: panels_def append_Cons append_Nil)
  with p have "then_do (run [tab1 sort_values l mal_type, tab2, tab3, tab4] s0) tab5 = Inr s'"
    by (simp only:)
  then obtain s4 where s4: "run [tab1 sort_values l mal_type, tab2, tab3, tab4] s0 = Inr s4"
    and t5: "tab5 s4 = Inr s'"
    unfolding then_do_Inr by blast
  from tabs_1_to_4_keep[OF d0 s4] have d4: "df_is 1 df s4" .
  from tab5_effect[OF d4 t5] obtain final where fin: "df_is 1 final s'"
    and 1: "final = df
          \<or> (''Mothers_weight_kg'' \<in> set (map fst df) \<and> ''Mothers_height_cm'' \<in> set (map fst df)
              \<and> (\<exists>bmi. final = set_col df ''Mother_BMI'' bmi))"
    by blast
  have 2: "\<forall>c. c \<noteq> ''Mother_BMI'' \<longrightarrow> get_col final c = get_col df c"
  proof (intro allI impI)
    fix c :: string assume c: "c \<noteq> ''Mother_BMI''"
    from 1 show "get_col final c = get_col df c"
    proof
      assume "final = df" then show ?thesis by simp
    next
      assume "''Mothers_weight_kg'' \<in> set (map fst df) \<and> ''Mothers_height_cm'' \<in> set (map fst df)
              \<and> (\<exists>bmi. final = set_col df ''Mother_BMI'' bmi)"
      then obtain bmi where "final = set_col df ''Mother_BMI'' bmi" by blast
      with c show ?thesis by (simp add: get_col_set_col)
    qed
  qed
  from 1 have 3: "''Mother_BMI'' \<notin> set (map fst df) \<longrightarrow>
               final = df \<or> (\<exists>bmi. final = df @ [(''Mother_BMI'', bmi)])"
    using set_col_new[of "''Mother_BMI''" df] by blast
  from 1 have 4: "''Mother_BMI'' \<in> set (map fst df) \<longrightarrow> map fst final = map fst df"
    using set_col_names[of "''Mother_BMI''" df] by blast
  note g0 = get_frame_df[OF d0] and g4 = get_frame_df[OF d4] and g5 = get_frame_df[OF fin]
  show ?thesis
    by (intro exI[of _ df] exI[of _ s0] exI[of _ s4] exI[of _ final] conjI
        df s0 g0 s4 g4 t5 g5 1 2 3 4)
qed

theorem panels_assign_only_mother_bmi_witness:
  "then_do (dashboard stable_sort_desc [''Orissa'', ''Kerala''] State ''Stunted''
     [(''State'', [Str ''Odisha'', Str ''Kerala'', Str ''Goa'']),
      (''Age_in_months'', [Num 12, Num 30, Num 7]),
      (''Sex'', [Str ''F'', Str ''M'', Str ''F'']),
      (''Height_cm'', [Num 70, Num 88, Num 60]),
      (''Weight_kg'', [Num 8, Num 12, Num 6]),
      (''MUAC_cm'', [Num 12, Num 14, NaN]),
      (''Growth_status'', [Str ''Stunted'', Str ''Normal'', NaN]),
      (''Immunization_status'', [Str ''Full'', Str ''Partial'', NaN]),
      (''Supplementary_nutrition_received'', [Str ''Yes'', Str ''No'', NaN]),
      (''Mothers_weight_kg'', [Num 50, Num 60, Num 55]),
      (''Mothers_height_cm'', [Num 160, Num 0, Num 150])]) (df_column ''State'')
   = Inr [Str ''Orissa'', Str ''Kerala'']"
proof -
  let ?raw = "[(''State'', [Str ''Odisha'', Str ''Kerala'', Str ''Goa'']),
      (''Age_in_months'', [Num 12, Num 30, Num 7]),
      (''Sex'', [Str ''F'', Str ''M'', Str ''F'']),
      (''Height_cm'', [Num 70, Num 88, Num 60]),
      (''Weight_kg'', [Num 8, Num 12, Num 6]),
      (''MUAC_cm'', [Num 12, Num 14, NaN]),
      (''Growth_status'', [Str ''Stunted'', Str ''Normal'', NaN]),
      (''Immunization_status'', [Str ''Full'', Str ''Partial'', NaN]),
      (''Supplementary_nutrition_received'', [Str ''Yes'', Str ''No'', NaN]),
      (''Mothers_weight_kg'', [Num 50, Num 60, Num 55]),
      (''Mothers_height_cm'', [Num 160, Num 0, Num 150])]"
  let ?df = "[(''State'', [Str ''Orissa'', Str ''Kerala'']),
      (''Age_in_months'', [Num 12, Num 30]),
      (''Sex'', [Str ''F'', Str ''M'']),
      (''Height_cm'', [Num 70, Num 88]),
      (''Weight_kg'', [Num 8, Num 12]),
      (''MUAC_cm'', [Num 12, Num 14]),
      (''Growth_status'', [Str ''Stunted'', Str ''Normal'']),
      (''Immunization_status'', [Str ''Full'', Str ''Partial'']),
      (''Supplementary_nutrition_received'', [Str ''Yes'', Str ''No'']),
      (''Mothers_weight_kg'', [Num 50, Num 60]),
      (''Mothers_height_cm'', [Num 160, Num 0])]"
  have "\<not> isl (dashboard stable_sort_desc [''Orissa'', ''Kerala''] State ''Stunted'' ?raw)"
    by code_simp
  then obtain s' where
    h: "dashboard stable_sort_desc [''Orissa'', ''Kerala''] State ''Stunted'' ?raw = Inr s'"
    by (cases "dashboard stable_sort_desc [''Orissa'', ''Kerala''] State ''Stunted'' ?raw") auto
  have p: "prepare [''Orissa'', ''Kerala''] ?raw = Inr ?df" by code_simp
  from panels_assign_only_mother_bmi[OF h] p obtain final where
    g: "get_frame ''df'' s' = Inr final" and c: "get_col final ''State'' = get_col ?df ''State''"
    by auto
  have "get_col ?df ''State'' = Inr [Str ''Orissa'', Str ''Kerala'']"
    by (simp add: get_col_def)
  with h g c show ?thesis by (simp add: df_column_def)
qed

text \<open>
  The claim as stated fails where the dataset already has a column \<^verbatim>\<open>Mother_BMI\<close>: the
  assignment of line 177 replaces its values.
\<close>

theorem existing_column_overwritten:
  "then_do (run_prepare [''Orissa'']
     [(''State'', [Str ''Odisha'']),
      (''Age_in_months'', [Num 12]),
      (''Sex'', [Str ''F'']),
      (''Height_cm'', [Num 70]),
      (''Weight_kg'', [Num 8]),
      (''MUAC_cm'', [Num 12]),
      (''Growth_status'', [Str ''Stunted'']),
      (''Immunization_status'', [Str ''Full'']),
      (''Supplementary_nutrition_received'', [Str ''Yes'']),
      (''Mothers_weight_kg'', [Num 50]),
      (''Mothers_height_cm'', [Num 200]),
      (''Mother_BMI'', [Num 99])]) (df_column ''Mother_BMI'')
   = Inr [Num 99]
   \<and> then_do (dashboard stable_sort_desc [''Orissa''] State ''Stunted''
     [(''State'', [Str ''Odisha'']),
      (''Age_in_months'', [Num 12]),
      (''Sex'', [Str ''F'']),
      (''Height_cm'', [Num 70]),
      (''Weight_kg'', [Num 8]),
      (''MUAC_cm'', [Num 12]),
      (''Growth_status'', [Str ''Stunted'']),
      (''Immunization_status'', [Str ''Full'']),
      (''Supplementary_nutrition_received'', [Str ''Yes'']),
      (''Mothers_weight_kg'', [Num 50]),
      (''Mothers_height_cm'', [Num 200]),
      (''Mother_BMI'', [Num 99])]) (df_column ''Mother_BMI'')
   = Inr [Num (25 / 2)]"
  by code_simp


end
